theory Spec2Isabelle
  imports Main "HOL-Library.Log_Nat" "HOL-Library.Multiset"
begin

section \<open>Constants, clock readings and library functions\<close>

text \<open>
  The arena server of \<^verbatim>\<open>main.go\<close>. Go's \<^verbatim>\<open>int\<close> is modelled by \<^typ>\<open>int\<close>: coordinates stay
  inside the 150 x 40 world and the counters grow by one per bullet hit, so no value comes
  near the 64-bit range. A \<^verbatim>\<open>time.Time\<close> and a \<^verbatim>\<open>time.Duration\<close> are integers counting
  nanoseconds (the first since the Unix epoch, as \<^verbatim>\<open>UnixNano\<close> reads it); every call of
  \<^verbatim>\<open>time.Now()\<close> is an extra argument of the function that makes the call.
\<close>

definition WORLD_WIDTH :: int where "WORLD_WIDTH = 150"
definition WORLD_HEIGHT :: int where "WORLD_HEIGHT = 40"

definition Millisecond :: int where "Millisecond = 1000000"
definition Second :: int where "Second = 1000 * Millisecond"

definition BULLET_SPEED :: int where "BULLET_SPEED = 100 * Millisecond"
definition SHOOT_COOLDOWN :: int where "SHOOT_COOLDOWN = 500 * Millisecond"
definition RESPAWN_TIME :: int where "RESPAWN_TIME = 3 * Second"

text \<open>The zero \<^verbatim>\<open>time.Time\<close> (1 January of year 1) that an unset field holds.\<close>

definition zeroTime :: int where "zeroTime = - 62135596800 * Second"

text \<open>\<^verbatim>\<open>t.Sub(u)\<close>: the difference, saturated to the range of a Duration.\<close>

definition Sub :: "int \<Rightarrow> int \<Rightarrow> int" where
  "Sub t u = max (- (2 ^ 63)) (min (2 ^ 63 - 1) (t - u))"

text \<open>Go's \<^verbatim>\<open>%\<close> and \<^verbatim>\<open>/\<close> on integers truncate towards zero.\<close>

definition go_rem :: "int \<Rightarrow> int \<Rightarrow> int" where
  "go_rem a b = sgn a * (\<bar>a\<bar> mod \<bar>b\<bar>)"

definition go_quot :: "int \<Rightarrow> int \<Rightarrow> int" where
  "go_quot a b = sgn a * sgn b * (\<bar>a\<bar> div \<bar>b\<bar>)"

subsection \<open>Decimal printing: the verb %d\<close>

definition digit_char :: "nat \<Rightarrow> char" where
  "digit_char d = ''0123456789'' ! d"

fun show_nat :: "nat \<Rightarrow> string" where
  "show_nat n = (if n < 10 then [digit_char n] else show_nat (n div 10) @ [digit_char (n mod 10)])"

declare show_nat.simps [simp del]

definition show_int :: "int \<Rightarrow> string" where
  "show_int i = (if i < 0 then CHR ''-'' # show_nat (nat (- i)) else show_nat (nat i))"

subsection \<open>float64: conversion, division and the verb %.2f\<close>

text \<open>
  A finite float64 is a rational number. \<open>float64\<close> rounds a rational to the nearest
  number with a 53-bit significand, ties to even, which is what the conversion
  \<^verbatim>\<open>float64(n)\<close> and the IEEE division do (the quotients of two 64-bit integers lie in the
  normal range, so neither subnormals nor infinities are modelled).
\<close>

definition round_half_even :: "rat \<Rightarrow> int" where
  "round_half_even q =
     (let f = \<lfloor>q\<rfloor>; d = q - of_int f
      in if d < 1 / 2 then f else if 1 / 2 < d then f + 1
         else if even f then f else f + 1)"

definition ilog2 :: "rat \<Rightarrow> int" where
  "ilog2 q = (case quotient_of \<bar>q\<bar> of (a, b) \<Rightarrow>
     (let e = bitlen a - bitlen b in if 2 powi e \<le> \<bar>q\<bar> then e else e - 1))"

definition float64 :: "rat \<Rightarrow> rat" where
  "float64 q = (if q = 0 then 0
     else (let u = 2 powi (ilog2 q - 52) in of_int (round_half_even (q / u)) * u))"

text \<open>\<^verbatim>\<open>int(f)\<close> on a float64 drops the fraction.\<close>

definition int_of_float64 :: "rat \<Rightarrow> int" where
  "int_of_float64 f = (if 0 \<le> f then \<lfloor>f\<rfloor> else \<lceil>f\<rceil>)"

text \<open>
  \<^verbatim>\<open>fmt.Sprintf("%.2f", f)\<close>: the decimal with two fraction digits nearest to the exact
  value of \<open>f\<close>, ties to even, with the sign of \<open>f\<close>.
\<close>

definition Sprintf_2f :: "rat \<Rightarrow> string" where
  "Sprintf_2f f =
     (let n = nat (round_half_even (\<bar>f\<bar> * 100))
      in (if f < 0 then ''-'' else '''') @ show_nat (n div 100) @ ''.'' @
         [digit_char (n div 10 mod 10), digit_char (n mod 10)])"

section \<open>Entities and state\<close>

record Player =
  ID :: string
  Name :: string
  X :: int
  Y :: int
  Character :: string
  Kills :: int
  Deaths :: int
  LastSeen :: int
  Dead :: bool
  RespawnAt :: int
  LastShot :: int
  IsSpectator :: bool

record Bullet =
  bID :: string
  bX :: int
  bY :: int
  DirX :: int
  DirY :: int
  OwnerID :: string
  bCharacter :: string

record JoinData =
  jName :: string
  jCharacter :: string
  jSpectator :: bool

record GameWorld =
  Width :: int
  Height :: int
  Grid :: "string list list"
  Bullets :: "string \<rightharpoonup> Bullet"

text \<open>
  A connection is a number. The \<^verbatim>\<open>clientInfo\<close> of a connection points to a Player; only
  the \<^verbatim>\<open>ID\<close> of that Player, which is never assigned after the join, is read through it,
  so the registry maps a connection to that id. The Go maps hold pointers, and no two keys
  of \<open>players\<close> ever hold the same pointer (each join allocates its Player), so assigning a
  field through a pointer taken from the map is an update of the map at that key.
\<close>

record GameServer =
  clients :: "nat \<rightharpoonup> string"
  players :: "string \<rightharpoonup> Player"
  world :: GameWorld

text \<open>
  \<^verbatim>\<open>for _, p := range m\<close> visits the entries of a map in an order Go leaves open. A function
  that ranges over a map takes the order of the visit as a list of keys, which is some
  enumeration of the keys of the map.
\<close>

definition range_order :: "('k \<rightharpoonup> 'v) \<Rightarrow> 'k list \<Rightarrow> bool" where
  "range_order m ks \<longleftrightarrow> distinct ks \<and> set ks = dom m"

definition range_entries :: "('k \<rightharpoonup> 'v) \<Rightarrow> 'k list \<Rightarrow> ('k \<times> 'v) list" where
  "range_entries m ks = List.map_filter (\<lambda>k. map_option (Pair k) (m k)) ks"

definition NewGameWorld :: GameWorld where
  "NewGameWorld =
     \<lparr>Width = WORLD_WIDTH, Height = WORLD_HEIGHT,
      Grid = replicate (nat WORLD_HEIGHT) (replicate (nat WORLD_WIDTH) ''''),
      Bullets = Map.empty\<rparr>"

definition gameServer :: GameServer where
  "gameServer = \<lparr>clients = Map.empty, players = Map.empty, world = NewGameWorld\<rparr>"

section \<open>movePlayer\<close>

text \<open>The \<^verbatim>\<open>switch direction\<close> of movePlayer; \<open>None\<close> is its default branch.\<close>

definition move_target :: "Player \<Rightarrow> string \<Rightarrow> (int \<times> int) option" where
  "move_target player direction =
     (if direction = ''up'' then
        Some (X player, int_of_float64 (max 0 (float64 (of_int (Y player - 1)))))
      else if direction = ''down'' then
        Some (X player,
          int_of_float64 (min (float64 (of_int (WORLD_HEIGHT - 1))) (float64 (of_int (Y player + 1)))))
      else if direction = ''left'' then
        Some (int_of_float64 (max 0 (float64 (of_int (X player - 1)))), Y player)
      else if direction = ''right'' then
        Some (int_of_float64 (min (float64 (of_int (WORLD_WIDTH - 1))) (float64 (of_int (X player + 1)))),
          Y player)
      else None)"

text \<open>The scan of movePlayer over all players for another alive player in the new cell.\<close>

fun cell_blocked :: "(string \<times> Player) list \<Rightarrow> string \<Rightarrow> int \<Rightarrow> int \<Rightarrow> bool" where
  "cell_blocked [] playerID newX newY = False"
| "cell_blocked ((k, p) # ps) playerID newX newY =
     (if ID p \<noteq> playerID \<and> \<not> Dead p \<and> X p = newX \<and> Y p = newY then True
      else cell_blocked ps playerID newX newY)"

text \<open>
  movePlayer up to the release of the lock; \<open>ord\<close> is the order of the range over the
  players and \<open>now\<close> the clock reading stored in LastSeen. The broadcast that follows a
  successful move sends a frame and changes no player, bullet or registry entry.
\<close>

definition movePlayer ::
  "GameServer \<Rightarrow> string list \<Rightarrow> string \<Rightarrow> string \<Rightarrow> int \<Rightarrow> bool \<times> GameServer" where
  "movePlayer gs ord playerID direction now =
     (case players gs playerID of
        None \<Rightarrow> (False, gs)
      | Some player \<Rightarrow>
          if Dead player \<or> IsSpectator player then (False, gs)
          else (case move_target player direction of
             None \<Rightarrow> (False, gs)
           | Some (newX, newY) \<Rightarrow>
               if cell_blocked (range_entries (players gs) ord) playerID newX newY
               then (False, gs)
               else (True, gs\<lparr>players := (players gs)(playerID \<mapsto>
                              player\<lparr>X := newX, Y := newY, LastSeen := now\<rparr>)\<rparr>)))"

section \<open>shootBullet\<close>

text \<open>The \<^verbatim>\<open>switch direction\<close> of shootBullet: dirX and dirY; \<open>None\<close> is its default branch.\<close>

definition direction_vector :: "string \<Rightarrow> (int \<times> int) option" where
  "direction_vector direction =
     (if direction = ''up'' then Some (0, - 1)
      else if direction = ''down'' then Some (0, 1)
      else if direction = ''left'' then Some (- 1, 0)
      else if direction = ''right'' then Some (1, 0)
      else None)"

text \<open>
  shootBullet reads the clock three times: \<open>t_since\<close> for the cooldown test, \<open>t_id\<close> for the
  bullet id and \<open>t_stamp\<close> for LastShot. A result \<open>True\<close> also means that the timeline
  \<^verbatim>\<open>go gs.moveBullet(bullet.ID)\<close> of the new bullet has been started.
\<close>

definition shootBullet ::
  "GameServer \<Rightarrow> string \<Rightarrow> string \<Rightarrow> int \<Rightarrow> int \<Rightarrow> int \<Rightarrow> bool \<times> GameServer" where
  "shootBullet gs playerID direction t_since t_id t_stamp =
     (case players gs playerID of
        None \<Rightarrow> (False, gs)
      | Some player \<Rightarrow>
          if Dead player \<or> IsSpectator player then (False, gs)
          else if Sub t_since (LastShot player) < SHOOT_COOLDOWN then (False, gs)
          else (case direction_vector direction of
             None \<Rightarrow> (False, gs)
           | Some (dirX, dirY) \<Rightarrow>
               (let bullet = \<lparr>bID = ''bullet_'' @ show_int t_id, bX = X player, bY = Y player,
                              DirX = dirX, DirY = dirY, OwnerID = playerID, bCharacter = ''*''\<rparr>
                in (True, gs\<lparr>world := (world gs)\<lparr>Bullets := (Bullets (world gs))(bID bullet \<mapsto> bullet)\<rparr>,
                             players := (players gs)(playerID \<mapsto> player\<lparr>LastShot := t_stamp\<rparr>)\<rparr>))))"

section \<open>moveBullet\<close>

text \<open>
  One round of the loop of moveBullet, from the lock to the unlock: a tick of the bullet's
  timeline. The result says how the round ended: the bullet was gone, it left the world,
  it hit the player whose respawn timeline is started, or it flies on. The loop runs its
  next round only after \<open>Flying\<close>.
\<close>

datatype tick_result = NoBullet | LeftWorld | Hit string | Flying

text \<open>\<^verbatim>\<open>bullet.X += bullet.DirX; bullet.Y += bullet.DirY\<close>\<close>

definition advance :: "Bullet \<Rightarrow> Bullet" where
  "advance b = b\<lparr>bX := bX b + DirX b, bY := bY b + DirY b\<rparr>"

text \<open>The scan over the players for the first alive player, not the owner, on the bullet's cell.\<close>

fun find_victim :: "(string \<times> Player) list \<Rightarrow> Bullet \<Rightarrow> (string \<times> Player) option" where
  "find_victim [] bullet = None"
| "find_victim ((k, player) # ps) bullet =
     (if \<not> Dead player \<and> X player = bX bullet \<and> Y player = bY bullet \<and> ID player \<noteq> OwnerID bullet
      then Some (k, player) else find_victim ps bullet)"

definition moveBullet_tick ::
  "GameServer \<Rightarrow> string list \<Rightarrow> string \<Rightarrow> int \<Rightarrow> tick_result \<times> GameServer" where
  "moveBullet_tick gs ord bulletID now =
     (case Bullets (world gs) bulletID of
        None \<Rightarrow> (NoBullet, gs)
      | Some b \<Rightarrow>
         (let bullet = advance b
          in if bX bullet < 0 \<or> WORLD_WIDTH \<le> bX bullet \<or> bY bullet < 0 \<or> WORLD_HEIGHT \<le> bY bullet
             then (LeftWorld,
                   gs\<lparr>world := (world gs)\<lparr>Bullets := (Bullets (world gs))(bulletID := None)\<rparr>\<rparr>)
             else (case find_victim (range_entries (players gs) ord) bullet of
                Some (k, player) \<Rightarrow>
                  (let victim = player\<lparr>Dead := True, Deaths := Deaths player + 1,
                                       RespawnAt := now + RESPAWN_TIME\<rparr>;
                       ps1 = (players gs)(k \<mapsto> victim);
                       ps2 = (case ps1 (OwnerID bullet) of
                                Some shooter \<Rightarrow>
                                  ps1(OwnerID bullet \<mapsto> shooter\<lparr>Kills := Kills shooter + 1\<rparr>)
                              | None \<Rightarrow> ps1)
                   in (Hit (ID player),
                       gs\<lparr>players := ps2,
                          world := (world gs)\<lparr>Bullets := (Bullets (world gs))(bulletID := None)\<rparr>\<rparr>))
              | None \<Rightarrow>
                  (Flying,
                   gs\<lparr>world := (world gs)\<lparr>Bullets := (Bullets (world gs))(bulletID \<mapsto> bullet)\<rparr>\<rparr>))))"

section \<open>respawnPlayer\<close>

text \<open>The inner scan of respawnPlayer: some alive player stands on the cell.\<close>

fun cell_occupied :: "(string \<times> Player) list \<Rightarrow> int \<Rightarrow> int \<Rightarrow> bool" where
  "cell_occupied [] x y = False"
| "cell_occupied ((k, p) # ps) x y =
     (if \<not> Dead p \<and> X p = x \<and> Y p = y then True else cell_occupied ps x y)"

text \<open>
  The loop of at most 50 attempts. Attempt \<open>i\<close> reads the clock twice, \<open>clock i\<close>, once for
  each coordinate; the result is the first free cell found, if any.
\<close>

function respawn_attempts ::
  "(string \<times> Player) list \<Rightarrow> (nat \<Rightarrow> int \<times> int) \<Rightarrow> nat \<Rightarrow> (int \<times> int) option" where
  "respawn_attempts es clock attempts =
     (if attempts < 50 then
        (let x = go_rem (fst (clock attempts)) WORLD_WIDTH;
             y = go_rem (snd (clock attempts)) WORLD_HEIGHT
         in if cell_occupied es x y then respawn_attempts es clock (attempts + 1)
            else Some (x, y))
      else None)"
  by pat_completeness auto
termination
  by (relation "measure (\<lambda>(es, clock, attempts). 50 - attempts)") auto

declare respawn_attempts.simps [simp del]

text \<open>respawnPlayer after its sleep, from the lock to the unlock.\<close>

definition respawnPlayer ::
  "GameServer \<Rightarrow> string list \<Rightarrow> string \<Rightarrow> (nat \<Rightarrow> int \<times> int) \<Rightarrow> GameServer" where
  "respawnPlayer gs ord playerID clock =
     (case players gs playerID of
        None \<Rightarrow> gs
      | Some player \<Rightarrow>
         (let player1 = (case respawn_attempts (range_entries (players gs) ord) clock 0 of
                           Some (x, y) \<Rightarrow> player\<lparr>X := x, Y := y, Dead := False\<rparr>
                         | None \<Rightarrow> player);
              player2 = (if Dead player1
                         then player1\<lparr>X := go_quot WORLD_WIDTH 2, Y := go_quot WORLD_HEIGHT 2,
                                      Dead := False\<rparr>
                         else player1)
          in gs\<lparr>players := (players gs)(playerID \<mapsto> player2)\<rparr>))"

section \<open>Joining and leaving\<close>

text \<open>The Player that the join branch of handleWebSocket allocates.\<close>

definition new_player :: "JoinData \<Rightarrow> int \<Rightarrow> int \<Rightarrow> Player" where
  "new_player joinData t_id t_seen =
     \<lparr>ID = ''p'' @ show_int (go_rem t_id 10000), Name = jName joinData,
      X = go_quot WORLD_WIDTH 2, Y = go_quot WORLD_HEIGHT 2,
      Character = jCharacter joinData, Kills = 0, Deaths = 0, LastSeen = t_seen,
      Dead = False, RespawnAt = zeroTime, LastShot = zeroTime,
      IsSpectator = jSpectator joinData\<rparr>"

text \<open>addClient up to the unlock; the welcome message and the broadcasts change no state.\<close>

definition addClient :: "GameServer \<Rightarrow> nat \<Rightarrow> Player \<Rightarrow> GameServer" where
  "addClient gs conn player =
     gs\<lparr>clients := (clients gs)(conn \<mapsto> ID player), players := (players gs)(ID player \<mapsto> player)\<rparr>"

definition removeClient :: "GameServer \<Rightarrow> nat \<Rightarrow> GameServer" where
  "removeClient gs conn =
     (case clients gs conn of
        None \<Rightarrow> gs
      | Some playerID \<Rightarrow>
          gs\<lparr>clients := (clients gs)(conn := None), players := (players gs)(playerID := None)\<rparr>)"

text \<open>
  The branches of the message loop of handleWebSocket. \<open>bound\<close> is the handler's local
  variable \<^verbatim>\<open>player\<close>, as the id of the Player it points to (\<open>None\<close> for nil); a branch
  returns its new value. \<^verbatim>\<open>len\<close> counts the bytes of the character field, and the
  \<^verbatim>\<open>continue\<close> of the join branch leaves everything as it is.
\<close>

definition handle_join ::
  "GameServer \<Rightarrow> nat \<Rightarrow> string option \<Rightarrow> JoinData \<Rightarrow> int \<Rightarrow> int \<Rightarrow> string option \<times> GameServer" where
  "handle_join gs conn bound joinData t_id t_seen =
     (if length (jCharacter joinData) \<noteq> 1 then (bound, gs)
      else (let player = new_player joinData t_id t_seen
            in (Some (ID player), addClient gs conn player)))"

definition handle_move ::
  "GameServer \<Rightarrow> string list \<Rightarrow> string option \<Rightarrow> string \<Rightarrow> int \<Rightarrow> GameServer" where
  "handle_move gs ord bound direction now =
     (case bound of None \<Rightarrow> gs | Some playerID \<Rightarrow> snd (movePlayer gs ord playerID direction now))"

definition handle_shoot ::
  "GameServer \<Rightarrow> string option \<Rightarrow> string \<Rightarrow> int \<Rightarrow> int \<Rightarrow> int \<Rightarrow> GameServer" where
  "handle_shoot gs bound direction t_since t_id t_stamp =
     (case bound of None \<Rightarrow> gs
      | Some playerID \<Rightarrow> snd (shootBullet gs playerID direction t_since t_id t_stamp))"

text \<open>The end of handleWebSocket, after the read loop.\<close>

definition handle_close :: "GameServer \<Rightarrow> nat \<Rightarrow> string option \<Rightarrow> GameServer" where
  "handle_close gs conn bound = (case bound of None \<Rightarrow> gs | Some playerID \<Rightarrow> removeClient gs conn)"

section \<open>Runs of the server\<close>

text \<open>
  Every state change happens under the one lock, so a run of the server is a sequence of
  atomic events: a join, a move or shoot request, a tick of the timeline of a bullet, a
  respawn, or the removal of a connection. An event carries what the environment chooses:
  the clock readings and the order of each range over the players. \<open>Tick n\<close> is a tick of
  the timeline that shootBullet started for the bullet it named after the reading \<open>n\<close>.
\<close>

datatype event =
    Join nat JoinData int int
  | Move string string int "string list"
  | Shoot string string int int int
  | Tick int int "string list"
  | Respawn string "nat \<Rightarrow> int \<times> int" "string list"
  | Leave nat

fun step :: "GameServer \<Rightarrow> event \<Rightarrow> GameServer" where
  "step gs (Join conn joinData t_id t_seen) = snd (handle_join gs conn None joinData t_id t_seen)"
| "step gs (Move playerID direction now ord) = snd (movePlayer gs ord playerID direction now)"
| "step gs (Shoot playerID direction t_since t_id t_stamp) =
     snd (shootBullet gs playerID direction t_since t_id t_stamp)"
| "step gs (Tick n now ord) = snd (moveBullet_tick gs ord (''bullet_'' @ show_int n) now)"
| "step gs (Respawn playerID clock ord) = respawnPlayer gs ord playerID clock"
| "step gs (Leave conn) = removeClient gs conn"

fun run :: "GameServer \<Rightarrow> event list \<Rightarrow> GameServer" where
  "run gs [] = gs"
| "run gs (e # es) = run (step gs e) es"

text \<open>
  The clock never runs backwards: the readings of an event are in program order, and
  those taken under the lock are not before \<open>t\<close>, the latest reading of the events before
  it. The handler of a join reads the clock before addClient takes the lock, so its
  readings may be older than \<open>t\<close>. A timeline sleeps BULLET_SPEED before each tick, so a
  tick of the bullet named after the reading \<open>n\<close> runs no earlier than \<open>n + BULLET_SPEED\<close>.
  Each range order enumerates the players.
\<close>

fun event_ok :: "int \<Rightarrow> GameServer \<Rightarrow> event \<Rightarrow> bool" where
  "event_ok t gs (Join conn joinData t_id t_seen) \<longleftrightarrow> t_id \<le> t_seen"
| "event_ok t gs (Move playerID direction now ord) \<longleftrightarrow> t \<le> now \<and> range_order (players gs) ord"
| "event_ok t gs (Shoot playerID direction t_since t_id t_stamp) \<longleftrightarrow>
     t \<le> t_since \<and> t_since \<le> t_id \<and> t_id \<le> t_stamp"
| "event_ok t gs (Tick n now ord) \<longleftrightarrow>
     t \<le> now \<and> n + BULLET_SPEED \<le> now \<and> range_order (players gs) ord"
| "event_ok t gs (Respawn playerID clock ord) \<longleftrightarrow>
     range_order (players gs) ord \<and> list_all (\<lambda>i. t \<le> fst (clock i) \<and> t \<le> snd (clock i)) [0..<50]"
| "event_ok t gs (Leave conn) \<longleftrightarrow> True"

fun event_end :: "int \<Rightarrow> event \<Rightarrow> int" where
  "event_end t (Join conn joinData t_id t_seen) = max t t_seen"
| "event_end t (Move playerID direction now ord) = now"
| "event_end t (Shoot playerID direction t_since t_id t_stamp) = t_stamp"
| "event_end t (Tick n now ord) = now"
| "event_end t (Respawn playerID clock ord) = t"
| "event_end t (Leave conn) = t"

fun admissible :: "int \<Rightarrow> GameServer \<Rightarrow> event list \<Rightarrow> bool" where
  "admissible t gs [] \<longleftrightarrow> True"
| "admissible t gs (e # es) \<longleftrightarrow> event_ok t gs e \<and> admissible (event_end t e) (step gs e) es"

text \<open>No join of the run registers a player under the id \<open>playerID\<close>.\<close>

fun joins_as :: "string \<Rightarrow> event \<Rightarrow> bool" where
  "joins_as playerID (Join conn joinData t_id t_seen) \<longleftrightarrow>
     length (jCharacter joinData) = 1 \<and> ID (new_player joinData t_id t_seen) = playerID"
| "joins_as playerID e \<longleftrightarrow> False"

text \<open>The latest clock reading after a run that started with the latest reading \<open>t\<close>.\<close>

fun run_end :: "int \<Rightarrow> event list \<Rightarrow> int" where
  "run_end t [] = t"
| "run_end t (e # es) = run_end (event_end t e) es"

section \<open>getLeaderboard\<close>

record LeaderboardEntry =
  rank :: int
  lbName :: string
  lbCharacter :: string
  lbKills :: int
  lbDeaths :: int
  kdr :: string

text \<open>The \<^verbatim>\<open>less\<close> function handed to sort.Slice, on the two players it compares.\<close>

definition leaderboard_less :: "Player \<Rightarrow> Player \<Rightarrow> bool" where
  "leaderboard_less a b =
     (if Kills a = Kills b then Deaths a < Deaths b else Kills b < Kills a)"

text \<open>
  getLeaderboard holds the read lock only while it copies the pointers of the players into
  playersSnapshot. After RUnlock, sort.Slice and the loop read Kills and Deaths through
  these pointers, and a hit of moveBullet may write them under the write lock in between.
  A pointer is named by the key that its Player has in the map at the time of the
  snapshot, and a memory tells what the pointers lead to at each moment after the unlock:
  \<open>mem n k\<close> is the Player behind the pointer \<open>k\<close> at the moment \<open>n\<close>.
\<close>

type_synonym memory = "nat \<Rightarrow> string \<Rightarrow> Player"

text \<open>
  sort.Slice sorts a slice of up to 12 elements by insertion: one element after the other
  sinks below the elements before it that it is \<^verbatim>\<open>less\<close> than. \<open>before\<close> is the part sorted
  so far, the nearest element first. The calls of \<^verbatim>\<open>less\<close> are counted from \<open>c\<close>, and the call
  number \<open>n\<close> compares what it reads at the moment \<open>n\<close>; the count after the last call comes
  back with the slice. A longer slice is sorted in another way, which is not modelled.
\<close>

fun sink :: "(nat \<Rightarrow> 'a \<Rightarrow> 'a \<Rightarrow> bool) \<Rightarrow> 'a \<Rightarrow> 'a list \<Rightarrow> nat \<Rightarrow> 'a list \<times> nat" where
  "sink lessAt x [] c = ([x], c)"
| "sink lessAt x (y # before) c =
     (if lessAt c x y
      then (case sink lessAt x before (Suc c) of (before', c') \<Rightarrow> (y # before', c'))
      else (x # y # before, Suc c))"

fun insertion_sort ::
  "(nat \<Rightarrow> 'a \<Rightarrow> 'a \<Rightarrow> bool) \<Rightarrow> 'a list \<Rightarrow> 'a list \<Rightarrow> nat \<Rightarrow> 'a list \<times> nat" where
  "insertion_sort lessAt [] before c = (rev before, c)"
| "insertion_sort lessAt (x # xs) before c =
     (case sink lessAt x before c of (before', c') \<Rightarrow> insertion_sort lessAt xs before' c')"

definition sort_Slice :: "(nat \<Rightarrow> 'a \<Rightarrow> 'a \<Rightarrow> bool) \<Rightarrow> 'a list \<Rightarrow> 'a list \<times> nat" where
  "sort_Slice lessAt xs = insertion_sort lessAt xs [] 0"

text \<open>The float64 \<^verbatim>\<open>kdr\<close> of the loop body.\<close>

definition kdr_value :: "Player \<Rightarrow> rat" where
  "kdr_value player =
     (if 0 < Deaths player
      then float64 (float64 (of_int (Kills player)) / float64 (of_int (Deaths player)))
      else float64 (of_int (Kills player)))"

definition leaderboard_entry :: "nat \<Rightarrow> Player \<Rightarrow> LeaderboardEntry" where
  "leaderboard_entry i player =
     \<lparr>rank = int i + 1, lbName = Name player, lbCharacter = Character player,
      lbKills = Kills player, lbDeaths = Deaths player, kdr = Sprintf_2f (kdr_value player)\<rparr>"

text \<open>
  getLeaderboard: \<open>ord\<close> is the order of the range over the players under the read lock.
  When the sort has called \<^verbatim>\<open>less\<close> \<open>c\<close> times, round \<open>i\<close> of the loop reads the Player at
  the moment \<open>c + i\<close>.
\<close>

definition getLeaderboard :: "GameServer \<Rightarrow> string list \<Rightarrow> memory \<Rightarrow> LeaderboardEntry list" where
  "getLeaderboard gs ord mem =
     (let playersSnapshot = map fst (range_entries (players gs) ord);
          (sorted, c) = sort_Slice (\<lambda>n i j. leaderboard_less (mem n i) (mem n j)) playersSnapshot
      in map (\<lambda>(i, player). leaderboard_entry i (mem (c + i) player)) (enumerate 0 sorted))"

section \<open>Render\<close>

text \<open>\<^verbatim>\<open>strings.Repeat\<close> panics on a negative count; \<open>None\<close> is the panic.\<close>

definition Repeat :: "string \<Rightarrow> int \<Rightarrow> string option" where
  "Repeat s n = (if n < 0 then None else Some (concat (replicate (nat n) s)))"

text \<open>\<^verbatim>\<open>gw.Grid[y][x] = s\<close> and \<^verbatim>\<open>gw.Grid[y][x]\<close>, for indices inside the grid.\<close>

definition grid_put :: "string list list \<Rightarrow> int \<Rightarrow> int \<Rightarrow> string \<Rightarrow> string list list" where
  "grid_put g y x s = g[nat y := (g ! nat y)[nat x := s]]"

definition grid_get :: "string list list \<Rightarrow> int \<Rightarrow> int \<Rightarrow> string" where
  "grid_get g y x = g ! nat y ! nat x"

text \<open>
  The first loops of Render write every cell with \<open>0 \<le> y < Height\<close> and \<open>0 \<le> x < Width\<close>;
  all later accesses are to such cells. So Render panics with an index out of range
  exactly if one of these cells is missing from the Grid.
\<close>

definition index_ok :: "GameWorld \<Rightarrow> bool" where
  "index_ok gw \<longleftrightarrow>
     list_all (\<lambda>y. list_all (\<lambda>x. nat y < length (Grid gw) \<and> nat x < length (Grid gw ! nat y))
                      [0..Width gw - 1])
              [0..Height gw - 1]"

text \<open>
  Render, with the order \<open>bord\<close> of the range over the bullets and the order \<open>pord\<close> of the
  range over the players \<open>ps\<close>; the result is the frame and the world with its Grid rewritten,
  or \<open>None\<close> for a panic.
\<close>

definition Render ::
  "GameWorld \<Rightarrow> string list \<Rightarrow> string list \<Rightarrow> (string \<rightharpoonup> Player) \<Rightarrow> (string \<times> GameWorld) option" where
  "Render gw bord pord ps =
     (if \<not> index_ok gw then None
      else
        (let g1 = fold (\<lambda>y g. fold (\<lambda>x g. grid_put g y x '' '') [0..Width gw - 1] g)
                       [0..Height gw - 1] (Grid gw);
             g2 = fold (\<lambda>(k, bullet) g.
                          if 0 \<le> bX bullet \<and> bX bullet < Width gw \<and> 0 \<le> bY bullet \<and> bY bullet < Height gw
                          then grid_put g (bY bullet) (bX bullet) ''*'' else g)
                       (range_entries (Bullets gw) bord) g1;
             g3 = fold (\<lambda>(k, player) g.
                          if \<not> Dead player \<and> 0 \<le> X player \<and> X player < Width gw
                             \<and> 0 \<le> Y player \<and> Y player < Height gw
                          then grid_put g (Y player) (X player) (Character player) else g)
                       (range_entries ps pord) g2
         in (case Repeat ''-'' (Width gw) of
               None \<Rightarrow> None
             | Some dashes \<Rightarrow>
                 Some (''+'' @ dashes @ ''+\<newline>'' @
                       concat (map (\<lambda>y. ''|'' @ concat (map (\<lambda>x. grid_get g3 y x) [0..Width gw - 1])
                                           @ ''|\<newline>'')
                                   [0..Height gw - 1]) @
                       ''+'' @ dashes @ ''+\<newline>'',
                       gw\<lparr>Grid := g3\<rparr>))))"

text \<open>broadcastWorldUpdate renders the bullets of the world and the players of the server.\<close>

definition render_world :: "GameServer \<Rightarrow> string list \<Rightarrow> string list \<Rightarrow> (string \<times> GameWorld) option" where
  "render_world gs bord pord = Render (world gs) bord pord (players gs)"

section \<open>Specification vocabulary for movement\<close>

definition in_world :: "int \<Rightarrow> int \<Rightarrow> bool" where
  "in_world x y \<longleftrightarrow> 0 \<le> x \<and> x < WORLD_WIDTH \<and> 0 \<le> y \<and> y < WORLD_HEIGHT"

text \<open>The neighbouring cell in a direction, clamped on both sides to the world.\<close>

definition clamped_cell :: "Player \<Rightarrow> int \<times> int \<Rightarrow> int \<times> int" where
  "clamped_cell p v =
     (max 0 (min (WORLD_WIDTH - 1) (X p + fst v)), max 0 (min (WORLD_HEIGHT - 1) (Y p + snd v)))"

text \<open>
  What every join establishes and no operation breaks: a player is stored under its own
  id, stands inside the world and has a glyph of one byte.
\<close>

definition wf_players :: "(string \<rightharpoonup> Player) \<Rightarrow> bool" where
  "wf_players ps \<longleftrightarrow>
     (\<forall>k p. ps k = Some p \<longrightarrow> ID p = k \<and> in_world (X p) (Y p) \<and> length (Character p) = 1)"

text \<open>Some alive player other than \<open>playerID\<close> stands on the cell \<open>c\<close>.\<close>

definition other_alive_at :: "(string \<rightharpoonup> Player) \<Rightarrow> string \<Rightarrow> int \<times> int \<Rightarrow> bool" where
  "other_alive_at ps playerID c \<longleftrightarrow>
     (\<exists>k q. ps k = Some q \<and> ID q \<noteq> playerID \<and> \<not> Dead q \<and> (X q, Y q) = c)"

section \<open>Specification vocabulary for bullets\<close>

text \<open>The player \<open>p\<close> is alive, on the cell of the bullet, and not its owner.\<close>

definition hit_by :: "Bullet \<Rightarrow> Player \<Rightarrow> bool" where
  "hit_by bullet p \<longleftrightarrow> \<not> Dead p \<and> X p = bX bullet \<and> Y p = bY bullet \<and> ID p \<noteq> OwnerID bullet"

text \<open>What a hit does to the victim, and to the shooter if it is still registered.\<close>

definition killed :: "Player \<Rightarrow> int \<Rightarrow> Player" where
  "killed p now = p\<lparr>Dead := True, Deaths := Deaths p + 1, RespawnAt := now + RESPAWN_TIME\<rparr>"

definition credit_kill :: "(string \<rightharpoonup> Player) \<Rightarrow> string \<Rightarrow> (string \<rightharpoonup> Player)" where
  "credit_kill ps owner =
     (case ps owner of
        Some shooter \<Rightarrow> ps(owner \<mapsto> shooter\<lparr>Kills := Kills shooter + 1\<rparr>)
      | None \<Rightarrow> ps)"

text \<open>The first id of the range, in its order, whose player the bullet hits.\<close>

definition first_target :: "string list \<Rightarrow> (string \<rightharpoonup> Player) \<Rightarrow> Bullet \<Rightarrow> string option" where
  "first_target ord ps bullet =
     find (\<lambda>k. case ps k of Some q \<Rightarrow> hit_by bullet q | None \<Rightarrow> False) ord"

section \<open>Specification vocabulary for the cooldown\<close>

text \<open>The player registered as \<open>playerID\<close>, if any, has not shot before \<open>t0\<close> last.\<close>

definition shot_since :: "int \<Rightarrow> string \<Rightarrow> GameServer \<Rightarrow> bool" where
  "shot_since t0 playerID gs \<longleftrightarrow> (\<forall>q. players gs playerID = Some q \<longrightarrow> t0 \<le> LastShot q)"

section \<open>Specification vocabulary for occupancy\<close>

text \<open>No two alive players that are not spectators stand on the same cell.\<close>

definition no_overlap :: "(string \<rightharpoonup> Player) \<Rightarrow> bool" where
  "no_overlap ps \<longleftrightarrow>
     (\<forall>k k' p p'. ps k = Some p \<and> ps k' = Some p' \<and> k \<noteq> k'
        \<and> \<not> Dead p \<and> \<not> IsSpectator p \<and> \<not> Dead p' \<and> \<not> IsSpectator p'
        \<longrightarrow> (X p, Y p) \<noteq> (X p', Y p'))"

text \<open>No alive player that is not a spectator, other than \<open>playerID\<close>, stands on the centre.\<close>

definition centre_free :: "(string \<rightharpoonup> Player) \<Rightarrow> string \<Rightarrow> bool" where
  "centre_free ps playerID \<longleftrightarrow>
     \<not> (\<exists>k p. ps k = Some p \<and> k \<noteq> playerID \<and> \<not> Dead p \<and> \<not> IsSpectator p \<and> X p = 75 \<and> Y p = 20)"

text \<open>
  The two places where the server puts a player on the centre of the world without
  looking at it: an accepted join, and the fallback of a respawn after 50 failed attempts.
  An event is guarded when it is neither, or the player is a spectator, or the centre is
  free.
\<close>

fun spawn_guard :: "GameServer \<Rightarrow> event \<Rightarrow> bool" where
  "spawn_guard gs (Join conn joinData t_id t_seen) \<longleftrightarrow>
     length (jCharacter joinData) \<noteq> 1 \<or> jSpectator joinData
     \<or> centre_free (players gs) (ID (new_player joinData t_id t_seen))"
| "spawn_guard gs (Respawn playerID clock ord) \<longleftrightarrow>
     (case players gs playerID of
        None \<Rightarrow> True
      | Some p \<Rightarrow>
          respawn_attempts (range_entries (players gs) ord) clock 0 \<noteq> None
          \<or> \<not> Dead p \<or> IsSpectator p \<or> centre_free (players gs) playerID)"
| "spawn_guard gs e \<longleftrightarrow> True"

fun guarded :: "GameServer \<Rightarrow> event list \<Rightarrow> bool" where
  "guarded gs [] \<longleftrightarrow> True"
| "guarded gs (e # es) \<longleftrightarrow> spawn_guard gs e \<and> guarded (step gs e) es"

section \<open>Specification vocabulary for the leaderboard\<close>

text \<open>A decimal numeral with exactly two digits after the point.\<close>

definition two_decimals :: "string \<Rightarrow> bool" where
  "two_decimals s \<longleftrightarrow>
     (\<exists>sgn ds a b. s = sgn @ ds @ ''.'' @ [a, b] \<and> (sgn = '''' \<or> sgn = ''-'') \<and> ds \<noteq> []
        \<and> set ds \<subseteq> set ''0123456789'' \<and> a \<in> set ''0123456789'' \<and> b \<in> set ''0123456789'')"

text \<open>The order of the leaderboard: more kills first, and fewer deaths first among equal kills.\<close>

definition ranks_before :: "LeaderboardEntry \<Rightarrow> LeaderboardEntry \<Rightarrow> bool" where
  "ranks_before e e' \<longleftrightarrow>
     lbKills e' < lbKills e \<or> (lbKills e = lbKills e' \<and> lbDeaths e \<le> lbDeaths e')"

text \<open>
  No write lands after the snapshot: at every moment, the pointer of each player of the
  snapshot leads to the Player as it was under the read lock.
\<close>

definition quiet :: "GameServer \<Rightarrow> memory \<Rightarrow> bool" where
  "quiet gs mem \<longleftrightarrow> (\<forall>n k p. players gs k = Some p \<longrightarrow> mem n k = p)"

section \<open>Specification vocabulary for the frame\<close>

text \<open>
  What the cell (x, y) of the frame shows: the glyph of the alive player on it that the
  range over the players met last, else a star if a bullet is on it, else a blank.
\<close>

definition glyph_at :: "(string \<times> Bullet) list \<Rightarrow> (string \<times> Player) list \<Rightarrow> int \<Rightarrow> int \<Rightarrow> string" where
  "glyph_at bs ps x y =
     (case find (\<lambda>(k, p). \<not> Dead p \<and> X p = x \<and> Y p = y) (rev ps) of
        Some (k, p) \<Rightarrow> Character p
      | None \<Rightarrow> if list_ex (\<lambda>(k, b). bX b = x \<and> bY b = y) bs then ''*'' else '' '')"

text \<open>The same with spectators left out, as the specification words it.\<close>

definition glyph_at_without_spectators ::
  "(string \<times> Bullet) list \<Rightarrow> (string \<times> Player) list \<Rightarrow> int \<Rightarrow> int \<Rightarrow> string" where
  "glyph_at_without_spectators bs ps x y =
     (case find (\<lambda>(k, p). \<not> Dead p \<and> \<not> IsSpectator p \<and> X p = x \<and> Y p = y) (rev ps) of
        Some (k, p) \<Rightarrow> Character p
      | None \<Rightarrow> if list_ex (\<lambda>(k, b). bX b = x \<and> bY b = y) bs then ''*'' else '' '')"

text \<open>The lines of a frame of width \<open>w\<close> and height \<open>h\<close>, and the text with each line ended.\<close>

definition border :: "int \<Rightarrow> string" where
  "border w = ''+'' @ replicate (nat w) CHR ''-'' @ ''+''"

definition frame_lines :: "int \<Rightarrow> int \<Rightarrow> (int \<Rightarrow> int \<Rightarrow> string) \<Rightarrow> string list" where
  "frame_lines w h cell =
     border w # map (\<lambda>y. ''|'' @ concat (map (\<lambda>x. cell x y) [0..w - 1]) @ ''|'') [0..h - 1] @ [border w]"

definition unlines :: "string list \<Rightarrow> string" where
  "unlines ls = concat (map (\<lambda>l. l @ ''\<newline>'') ls)"

text \<open>
  The lines of a text: each line feed ends a line, and what follows the last line feed, if
  anything, is a line too.
\<close>

fun text_lines_from :: "string \<Rightarrow> string \<Rightarrow> string list" where
  "text_lines_from line [] = (if line = [] then [] else [rev line])"
| "text_lines_from line (c # cs) =
     (if c = CHR 0x0A then rev line # text_lines_from [] cs else text_lines_from (c # line) cs)"

definition text_lines :: "string \<Rightarrow> string list" where
  "text_lines t = text_lines_from [] t"

text \<open>No alive player has a line feed in its glyph.\<close>

definition plain_glyphs :: "(string \<rightharpoonup> Player) \<Rightarrow> bool" where
  "plain_glyphs ps \<longleftrightarrow> (\<forall>k p. ps k = Some p \<and> \<not> Dead p \<longrightarrow> CHR 0x0A \<notin> set (Character p))"

text \<open>Every glyph is one byte, as a join makes sure.\<close>

definition single_glyphs :: "(string \<rightharpoonup> Player) \<Rightarrow> bool" where
  "single_glyphs ps \<longleftrightarrow> (\<forall>k p. ps k = Some p \<longrightarrow> length (Character p) = 1)"

section \<open>Specification vocabulary for the grid\<close>

text \<open>Every cell of a \<open>w\<close> by \<open>h\<close> frame is inside the grid \<open>g\<close>.\<close>

definition fits :: "int \<Rightarrow> int \<Rightarrow> string list list \<Rightarrow> bool" where
  "fits w h g \<longleftrightarrow>
     (\<forall>y x. 0 \<le> y \<and> y < h \<and> 0 \<le> x \<and> x < w \<longrightarrow> nat y < length g \<and> nat x < length (g ! nat y))"

section \<open>Concrete states\<close>

text \<open>A player record with fresh counters, and two players side by side on the top row.\<close>

definition mkPlayer :: "string \<Rightarrow> string \<Rightarrow> int \<Rightarrow> int \<Rightarrow> bool \<Rightarrow> bool \<Rightarrow> Player" where
  "mkPlayer i c x y d sp =
     \<lparr>ID = i, Name = i, X = x, Y = y, Character = c, Kills = 0, Deaths = 0, LastSeen = 0,
      Dead = d, RespawnAt = zeroTime, LastShot = zeroTime, IsSpectator = sp\<rparr>"

definition duel :: GameServer where
  "duel = \<lparr>clients = [0 \<mapsto> ''p1'', 1 \<mapsto> ''p2''],
            players = [''p1'' \<mapsto> mkPlayer ''p1'' ''A'' 5 0 False False,
                       ''p2'' \<mapsto> mkPlayer ''p2'' ''B'' 6 0 False False],
            world = NewGameWorld\<rparr>"

text \<open>The first player of the duel has fired to the right.\<close>

definition duel_bullet :: Bullet where
  "duel_bullet = \<lparr>bID = ''bullet_1000'', bX = 5, bY = 0, DirX = 1, DirY = 0,
                  OwnerID = ''p1'', bCharacter = ''*''\<rparr>"

definition duel_shot :: GameServer where
  "duel_shot = duel\<lparr>world := NewGameWorld\<lparr>Bullets := [''bullet_1000'' \<mapsto> duel_bullet]\<rparr>\<rparr>"

text \<open>A player next to a spectator at the centre of the world, and the player's bullet.\<close>

definition gallery_bullet :: Bullet where
  "gallery_bullet = \<lparr>bID = ''bullet_1000'', bX = 74, bY = 20, DirX = 1, DirY = 0,
                     OwnerID = ''p1'', bCharacter = ''*''\<rparr>"

definition gallery :: GameServer where
  "gallery = \<lparr>clients = [0 \<mapsto> ''p1'', 1 \<mapsto> ''p9''],
               players = [''p1'' \<mapsto> mkPlayer ''p1'' ''A'' 74 20 False False,
                          ''p9'' \<mapsto> mkPlayer ''p9'' ''S'' 75 20 False True],
               world = NewGameWorld\<lparr>Bullets := [''bullet_1000'' \<mapsto> gallery_bullet]\<rparr>\<rparr>"

text \<open>Join requests: a spectator without a glyph, and two players.\<close>

definition spectator_request :: JoinData where
  "spectator_request = \<lparr>jName = ''eve'', jCharacter = '''', jSpectator = True\<rparr>"

definition alice_request :: JoinData where
  "alice_request = \<lparr>jName = ''alice'', jCharacter = ''A'', jSpectator = False\<rparr>"

definition bob_request :: JoinData where
  "bob_request = \<lparr>jName = ''bob'', jCharacter = ''B'', jSpectator = False\<rparr>"

text \<open>A player in the top left corner has fired to the left.\<close>

definition corner_bullet :: Bullet where
  "corner_bullet = \<lparr>bID = ''bullet_'' @ show_int 1000, bX = 0, bY = 0, DirX = - 1, DirY = 0,
                    OwnerID = ''p1'', bCharacter = ''*''\<rparr>"

definition corner :: GameServer where
  "corner = \<lparr>clients = [0 \<mapsto> ''p1''],
              players = [''p1'' \<mapsto> mkPlayer ''p1'' ''A'' 0 0 False False],
              world = NewGameWorld\<lparr>Bullets := [''bullet_'' @ show_int 1000 \<mapsto> corner_bullet]\<rparr>\<rparr>"

text \<open>The order that sort.Slice establishes: \<open>b\<close> is not \<^verbatim>\<open>less\<close> than \<open>a\<close>.\<close>

definition board_le :: "Player \<Rightarrow> Player \<Rightarrow> bool" where
  "board_le a b \<longleftrightarrow> Kills b < Kills a \<or> (Kills a = Kills b \<and> Deaths a \<le> Deaths b)"

text \<open>The gallery with a second bullet of the player, in flight over a free cell.\<close>

definition volley :: GameServer where
  "volley = gallery\<lparr>world := NewGameWorld\<lparr>Bullets :=
      [''bullet_1000'' \<mapsto> gallery_bullet,
       ''bullet_2000'' \<mapsto> \<lparr>bID = ''bullet_2000'', bX = 80, bY = 5, DirX = 0, DirY = - 1,
                              OwnerID = ''p1'', bCharacter = ''*''\<rparr>]\<rparr>\<rparr>"

text \<open>
  A player joins, steps to the left and fires to the right, after a second player and a
  spectator with a glyph have joined and stand on the centre.
\<close>

definition sam_request :: JoinData where
  "sam_request = \<lparr>jName = ''sam'', jCharacter = ''S'', jSpectator = True\<rparr>"

definition crowd_run :: "event list" where
  "crowd_run = [Join 0 alice_request 1 1, Move ''p1'' ''left'' 2 [''p1''],
                Join 1 bob_request 2 3, Join 2 sam_request 9 9,
                Shoot ''p1'' ''right'' 1000 1000 1000]"

definition crowd :: GameServer where
  "crowd = run gameServer crowd_run"

text \<open>
  The tick of that bullet, and a memory in which it runs after the second call of
  \<^verbatim>\<open>less\<close> of a sort: the pointers lead to the players of the crowd at the moments 0 and 1,
  and to the players after the tick from the moment 2.
\<close>

definition crowd_tick :: GameServer where
  "crowd_tick =
     snd (moveBullet_tick crowd [''p1'', ''p2'', ''p9''] (''bullet_'' @ show_int 1000) 100001000)"

definition crowd_memory :: memory where
  "crowd_memory n k = the (players (if n < 2 then crowd else crowd_tick) k)"

text \<open>A join request whose glyph is the line feed, and the server after that join.\<close>

definition feed_request :: JoinData where
  "feed_request = \<lparr>jName = ''feed'', jCharacter = [CHR 0x0A], jSpectator = False\<rparr>"

definition feed :: GameServer where
  "feed = step gameServer (Join 0 feed_request 5 6)"

section \<open>Facts about the library functions and movePlayer\<close>

lemma round_half_even_of_int [simp]: "round_half_even (of_int k) = k"
  by (simp add: round_half_even_def)

lemma ilog2_of_int: 
  assumes "n \<noteq> 0" shows "ilog2 (of_int n) = bitlen \<bar>n\<bar> - 1"
proof -
  have q: "quotient_of \<bar>rat_of_int n\<bar> = (\<bar>n\<bar>, 1)"
    unfolding of_int_abs[symmetric] by (simp add: of_int_rat quotient_of_Fract)
  have pos: "0 < \<bar>n\<bar>" using assms by simp
  have b1: "bitlen 1 = 1" by (simp add: bitlen_def floorlog_def)
  define a where "a = nat (bitlen \<bar>n\<bar> - 1)"
  from bitlen_bounds[OF pos] have lb: "2 ^ a \<le> \<bar>n\<bar>"
    unfolding a_def by (rule conjunct1)
  have "1 \<le> bitlen \<bar>n\<bar>" using pos bitlen_eq_zero_iff[of "\<bar>n\<bar>"] bitlen_nonneg[of "\<bar>n\<bar>"] by linarith
  then have "bitlen \<bar>n\<bar> - 1 = int a" unfolding a_def by simp
  then have p: "(2::rat) powi (bitlen \<bar>n\<bar> - 1) = of_int (2 ^ a)"
    by (simp add: power_int_def)
  have "rat_of_int (2 ^ a) \<le> \<bar>rat_of_int n\<bar>"
    using lb by (simp only: of_int_abs[symmetric] of_int_le_iff)
  then have "(2::rat) powi (bitlen \<bar>n\<bar> - 1) \<le> \<bar>rat_of_int n\<bar>"
    unfolding p .
  then show ?thesis
    by (simp add: ilog2_def q b1 Let_def)
qed

lemma float64_scaled:
  assumes "n \<noteq> 0" and "bitlen \<bar>n\<bar> \<le> 53"
  shows "float64 (of_int n) = of_int n"
proof -
  define k where "k = bitlen \<bar>n\<bar>"
  define j where "j = nat (53 - k)"
  have e: "ilog2 (of_int n) = k - 1" using assms(1) unfolding k_def by (rule ilog2_of_int)
  have "k \<le> 53" using assms(2) by (simp only: k_def)
  then have "k - 1 - 52 = - int j" unfolding j_def by linarith
  then have u: "(2::rat) powi (k - 1 - 52) = 1 / 2 ^ j"
    by (simp add: power_int_minus divide_inverse)
  have "of_int n / (1 / 2 ^ j) = rat_of_int (n * 2 ^ j)" by simp
  then have r: "round_half_even (of_int n / (1 / 2 ^ j)) = n * 2 ^ j"
    by (metis round_half_even_of_int)
  show ?thesis using assms(1) unfolding float64_def e u Let_def r by simp
qed

lemma float64_of_int_exact:
  assumes "\<bar>n\<bar> < 2 ^ 53" shows "float64 (of_int n) = of_int n"
proof (cases "n = 0")
  case True then show ?thesis by (simp add: float64_def)
next
  case False
  then have pos: "0 < \<bar>n\<bar>" by simp
  define a where "a = nat (bitlen \<bar>n\<bar> - 1)"
  from bitlen_bounds[OF pos] have lb: "2 ^ a \<le> \<bar>n\<bar>" unfolding a_def by (rule conjunct1)
  from lb assms have "(2::int) ^ a < 2 ^ 53" by (rule le_less_trans)
  then have "a < 53" by (rule power_less_imp_less_exp[rotated]) simp
  then have "bitlen \<bar>n\<bar> \<le> 53" unfolding a_def by linarith
  with False show ?thesis by (rule float64_scaled)
qed

lemma int_of_float64_of_int [simp]: "int_of_float64 (of_int n) = n"
  by (simp add: int_of_float64_def)

lemma float64_small:
  assumes "- 1 \<le> n" "n \<le> 150" shows "float64 (of_int n) = of_int n"
proof -
  have "\<bar>n\<bar> \<le> 150" using assms by linarith
  also have "(150::int) < 2 ^ 53" by simp
  finally show ?thesis by (rule float64_of_int_exact)
qed

lemma max_of_int_rat: "max (0::rat) (of_int n) = of_int (max 0 n)"
  by (simp add: max_def)

lemma min_of_int_rat: "min (rat_of_int a) (of_int n) = of_int (min a n)"
  by (simp add: min_def)

lemma move_target_in_world:
  assumes "in_world (X p) (Y p)"
  shows "move_target p direction = map_option (clamped_cell p) (direction_vector direction)"
proof -
  have b: "0 \<le> X p" "X p < 150" "0 \<le> Y p" "Y p < 40"
    using assms by (simp_all add: in_world_def WORLD_WIDTH_def WORLD_HEIGHT_def)
  have f: "float64 (of_int (Y p - 1)) = of_int (Y p - 1)"
     "float64 (of_int (Y p + 1)) = of_int (Y p + 1)"
     "float64 (of_int (X p - 1)) = of_int (X p - 1)"
     "float64 (of_int (X p + 1)) = of_int (X p + 1)"
     "float64 (of_int (WORLD_HEIGHT - 1)) = of_int (WORLD_HEIGHT - 1)"
     "float64 (of_int (WORLD_WIDTH - 1)) = of_int (WORLD_WIDTH - 1)"
    using b by (simp_all only: WORLD_WIDTH_def WORLD_HEIGHT_def) (rule float64_small; linarith)+
  show ?thesis
    unfolding move_target_def f max_of_int_rat min_of_int_rat int_of_float64_of_int
    using b by (auto simp add: direction_vector_def clamped_cell_def WORLD_WIDTH_def WORLD_HEIGHT_def)
qed

lemma cell_blocked_iff:
  "cell_blocked es pid x y \<longleftrightarrow> (\<exists>(k, q) \<in> set es. ID q \<noteq> pid \<and> \<not> Dead q \<and> X q = x \<and> Y q = y)"
  by (induction es pid x y rule: cell_blocked.induct) auto

lemma set_range_entries:
  "set (range_entries m ks) = {(k, v). k \<in> set ks \<and> m k = Some v}"
  by (induction ks) (auto simp add: range_entries_def map_filter_simps split: option.splits)

lemma set_range_entries_order:
  "range_order m ks \<Longrightarrow> set (range_entries m ks) = {(k, v). m k = Some v}"
  by (auto simp add: set_range_entries range_order_def)

section \<open>Move requests\<close>

lemma cell_blocked_other_alive_at:
  assumes "range_order ps ord"
  shows "cell_blocked (range_entries ps ord) pid x y \<longleftrightarrow> other_alive_at ps pid (x, y)"
  unfolding cell_blocked_iff set_range_entries_order[OF assms] other_alive_at_def by auto

lemma clamped_cell_in_world: "in_world (fst (clamped_cell p v)) (snd (clamped_cell p v))"
  by (simp add: clamped_cell_def in_world_def WORLD_WIDTH_def WORLD_HEIGHT_def min_def max_def)

lemma movePlayer_decision:
  assumes ord: "range_order (players gs) ord"
    and wf: "wf_players (players gs)"
  shows "movePlayer gs ord playerID direction now =
     (case players gs playerID of
        None \<Rightarrow> (False, gs)
      | Some p \<Rightarrow>
         (case direction_vector direction of
            None \<Rightarrow> (False, gs)
          | Some v \<Rightarrow>
             if Dead p \<or> IsSpectator p \<or> other_alive_at (players gs) playerID (clamped_cell p v)
             then (False, gs)
             else (True, gs\<lparr>players := (players gs)(playerID \<mapsto>
                     p\<lparr>X := fst (clamped_cell p v), Y := snd (clamped_cell p v), LastSeen := now\<rparr>)\<rparr>)))"
proof (cases "players gs playerID")
  case None
  then show ?thesis by (simp add: movePlayer_def clamped_cell_in_world)
next
  case (Some p)
  with wf have "in_world (X p) (Y p)" by (simp add: wf_players_def)
  then have t: "move_target p direction = map_option (clamped_cell p) (direction_vector direction)"
    by (rule move_target_in_world)
  show ?thesis
  proof (cases "direction_vector direction")
    case None
    then show ?thesis by (simp add: movePlayer_def Some t clamped_cell_in_world)
  next
    case (Some v)
    obtain cx cy where c: "clamped_cell p v = (cx, cy)" by (cases "clamped_cell p v")
    show ?thesis
      by (simp add: movePlayer_def \<open>players gs playerID = Some p\<close> t Some c
            cell_blocked_other_alive_at[OF ord] clamped_cell_in_world)
  qed
qed

text \<open>
  C2. A move request of a player that is unknown, dead or spectating, or with a direction
  other than up, down, left and right, or whose candidate cell holds another alive player,
  returns false and leaves the state as it is; any other request returns true and puts the
  player on the candidate cell, which is the neighbouring cell clamped to
  [0, width - 1] x [0, height - 1]. The mover stands inside the world, as every player of
  the server does.
\<close>

theorem movePlayer_request:
  assumes ord: "range_order (players gs) ord"
    and wf: "wf_players (players gs)"
  shows "movePlayer gs ord playerID direction now =
     (case players gs playerID of
        None \<Rightarrow> (False, gs)
      | Some p \<Rightarrow>
         (case direction_vector direction of
            None \<Rightarrow> (False, gs)
          | Some v \<Rightarrow>
             if Dead p \<or> IsSpectator p \<or> other_alive_at (players gs) playerID (clamped_cell p v)
             then (False, gs)
             else (True, gs\<lparr>players := (players gs)(playerID \<mapsto>
                     p\<lparr>X := fst (clamped_cell p v), Y := snd (clamped_cell p v), LastSeen := now\<rparr>)\<rparr>)))
     \<and> (\<forall>p v. in_world (fst (clamped_cell p v)) (snd (clamped_cell p v)))"
  using movePlayer_decision[OF ord wf] by (simp add: clamped_cell_in_world)

lemma wf_players_empty: "wf_players Map.empty"
  by (simp add: wf_players_def)

lemma wf_players_upd:
  "wf_players ps \<Longrightarrow> ID p = k \<Longrightarrow> in_world (X p) (Y p) \<Longrightarrow> length (Character p) = 1
   \<Longrightarrow> wf_players (ps(k \<mapsto> p))"
  by (simp add: wf_players_def)

lemma wf_players_delete: "wf_players ps \<Longrightarrow> wf_players (ps(k := None))"
  by (simp add: wf_players_def)

lemma wf_duel: "wf_players (players duel)"
  unfolding duel_def
  by (simp add: wf_players_upd wf_players_empty mkPlayer_def in_world_def WORLD_WIDTH_def WORLD_HEIGHT_def)

lemma duel_order: "range_order (players duel) [''p1'', ''p2'']"
  by (auto simp add: range_order_def duel_def)

theorem movePlayer_request_witness:
  "range_order (players duel) [''p1'', ''p2'']
   \<and> wf_players (players duel)
   \<and> movePlayer duel [''p1'', ''p2''] ''p1'' ''right'' 7 = (False, duel)
   \<and> fst (movePlayer duel [''p1'', ''p2''] ''p1'' ''up'' 7) = True
   \<and> map_option (\<lambda>p. (X p, Y p)) (players (snd (movePlayer duel [''p1'', ''p2''] ''p1'' ''up'' 7)) ''p1'') = Some (5, 0)
   \<and> fst (movePlayer duel [''p1'', ''p2''] ''p1'' ''left'' 7) = True
   \<and> map_option (\<lambda>p. (X p, Y p)) (players (snd (movePlayer duel [''p1'', ''p2''] ''p1'' ''left'' 7)) ''p1'') = Some (4, 0)"
proof -
  note inw = wf_duel
  have oth: "other_alive_at (players duel) ''p1'' (6, 0)" "\<not> other_alive_at (players duel) ''p1'' (5, 0)"
     "\<not> other_alive_at (players duel) ''p1'' (4, 0)"
    unfolding cell_blocked_other_alive_at[OF duel_order, symmetric]
    by (simp_all add: range_entries_def map_filter_simps duel_def mkPlayer_def)
  have p1: "players duel ''p1'' = Some (mkPlayer ''p1'' ''A'' 5 0 False False)"
    by (simp add: duel_def)
  have cc: "clamped_cell (mkPlayer ''p1'' ''A'' 5 0 False False) (1, 0) = (6, 0)"
     "clamped_cell (mkPlayer ''p1'' ''A'' 5 0 False False) (0, - 1) = (5, 0)"
     "clamped_cell (mkPlayer ''p1'' ''A'' 5 0 False False) (- 1, 0) = (4, 0)"
    by (simp_all add: clamped_cell_def mkPlayer_def WORLD_WIDTH_def WORLD_HEIGHT_def)
  have fl: "\<not> Dead (mkPlayer ''p1'' ''A'' 5 0 False False)" "\<not> IsSpectator (mkPlayer ''p1'' ''A'' 5 0 False False)"
    by (simp_all add: mkPlayer_def)
  have r: "movePlayer duel [''p1'', ''p2''] ''p1'' ''right'' 7 = (False, duel)"
    using conjunct1[OF movePlayer_request[OF duel_order inw, where playerID="''p1''" and direction="''right''" and now=7]]
    by (simp add: p1 direction_vector_def cc oth fl)
  have u: "movePlayer duel [''p1'', ''p2''] ''p1'' ''up'' 7 =
      (True, duel\<lparr>players := (players duel)(''p1'' \<mapsto>
          (mkPlayer ''p1'' ''A'' 5 0 False False)\<lparr>X := 5, Y := 0, LastSeen := 7\<rparr>)\<rparr>)"
    using conjunct1[OF movePlayer_request[OF duel_order inw, where playerID="''p1''" and direction="''up''" and now=7]]
    by (simp add: p1 direction_vector_def cc oth fl)
  have l: "movePlayer duel [''p1'', ''p2''] ''p1'' ''left'' 7 =
      (True, duel\<lparr>players := (players duel)(''p1'' \<mapsto>
          (mkPlayer ''p1'' ''A'' 5 0 False False)\<lparr>X := 4, Y := 0, LastSeen := 7\<rparr>)\<rparr>)"
    using conjunct1[OF movePlayer_request[OF duel_order inw, where playerID="''p1''" and direction="''left''" and now=7]]
    by (simp add: p1 direction_vector_def cc oth fl)
  show ?thesis
    apply (intro conjI)
          apply (rule duel_order)
         apply (rule wf_duel)
        apply (rule r)
       apply (simp_all add: u l)
    done
qed

section \<open>Bullet ticks\<close>

lemma advance_simps [simp]:
  "bX (advance b) = bX b + DirX b" "bY (advance b) = bY b + DirY b"
  "DirX (advance b) = DirX b" "DirY (advance b) = DirY b"
  "OwnerID (advance b) = OwnerID b" "bID (advance b) = bID b" "bCharacter (advance b) = bCharacter b"
  by (simp_all add: advance_def)

lemma find_victim_Some:
  "find_victim es bullet = Some (k, p) \<Longrightarrow> (k, p) \<in> set es \<and> hit_by bullet p"
  by (induction es bullet rule: find_victim.induct) (auto simp add: hit_by_def split: if_splits)

lemma find_victim_None:
  "find_victim es bullet = None \<longleftrightarrow> (\<forall>(k, p) \<in> set es. \<not> hit_by bullet p)"
  by (induction es bullet rule: find_victim.induct) (auto simp add: hit_by_def)

lemma range_entries_lookup:
  "(k, p) \<in> set (range_entries m ks) \<Longrightarrow> m k = Some p"
  by (simp add: set_range_entries)

lemma wf_players_ID: "wf_players ps \<Longrightarrow> ps k = Some p \<Longrightarrow> ID p = k"
  by (simp add: wf_players_def)

lemma in_world_not_left:
  "in_world x y \<Longrightarrow> \<not> (x < 0 \<or> WORLD_WIDTH \<le> x \<or> y < 0 \<or> WORLD_HEIGHT \<le> y)"
  by (auto simp add: in_world_def)

lemma moveBullet_tick_hit:
  assumes b: "Bullets (world gs) bulletID = Some b"
    and inw: "in_world (bX b + DirX b) (bY b + DirY b)"
    and fv: "find_victim (range_entries (players gs) ord) (advance b) = Some (k, p)"
  shows "moveBullet_tick gs ord bulletID now =
     (Hit (ID p),
      gs\<lparr>players := credit_kill ((players gs)(k \<mapsto> killed p now)) (OwnerID b),
         world := (world gs)\<lparr>Bullets := (Bullets (world gs))(bulletID := None)\<rparr>\<rparr>)"
  using in_world_not_left[OF inw] fv
  by (simp add: moveBullet_tick_def b Let_def credit_kill_def killed_def cong: option.case_cong)

lemma moveBullet_tick_miss:
  assumes b: "Bullets (world gs) bulletID = Some b"
    and inw: "in_world (bX b + DirX b) (bY b + DirY b)"
    and fv: "find_victim (range_entries (players gs) ord) (advance b) = None"
  shows "moveBullet_tick gs ord bulletID now =
     (Flying, gs\<lparr>world := (world gs)\<lparr>Bullets := (Bullets (world gs))(bulletID \<mapsto> advance b)\<rparr>\<rparr>)"
  using in_world_not_left[OF inw] fv
  by (simp add: moveBullet_tick_def b Let_def)

lemma moveBullet_tick_left:
  assumes b: "Bullets (world gs) bulletID = Some b"
    and inw: "\<not> in_world (bX b + DirX b) (bY b + DirY b)"
  shows "moveBullet_tick gs ord bulletID now =
     (LeftWorld, gs\<lparr>world := (world gs)\<lparr>Bullets := (Bullets (world gs))(bulletID := None)\<rparr>\<rparr>)"
  using inw
  by (auto simp add: moveBullet_tick_def b Let_def in_world_def)

lemma moveBullet_tick_gone:
  "Bullets (world gs) bulletID = None \<Longrightarrow> moveBullet_tick gs ord bulletID now = (NoBullet, gs)"
  by (simp add: moveBullet_tick_def)

lemma movePlayer_dead:
  "players gs playerID = Some q \<Longrightarrow> Dead q \<Longrightarrow> movePlayer gs ord playerID direction now = (False, gs)"
  by (simp add: movePlayer_def)

lemma shootBullet_dead:
  "players gs playerID = Some q \<Longrightarrow> Dead q \<Longrightarrow>
   shootBullet gs playerID direction t_since t_id t_stamp = (False, gs)"
  by (simp add: shootBullet_def)

lemma credit_kill_victim:
  "owner \<noteq> v \<Longrightarrow> credit_kill (ps(v \<mapsto> q)) owner v = Some q"
  by (simp add: credit_kill_def split: option.splits)

lemma credit_kill_owner:
  "owner \<noteq> v \<Longrightarrow> credit_kill (ps(v \<mapsto> q)) owner owner =
     map_option (\<lambda>s. s\<lparr>Kills := Kills s + 1\<rparr>) (ps owner)"
  by (simp add: credit_kill_def split: option.splits)

lemma credit_kill_other:
  "k \<noteq> v \<Longrightarrow> k \<noteq> owner \<Longrightarrow> credit_kill (ps(v \<mapsto> q)) owner k = ps k"
  by (simp add: credit_kill_def split: option.splits)

lemma find_victim_exists:
  assumes ord: "range_order ps ord" and k: "ps k0 = Some p0" and h: "hit_by bullet p0"
  obtains v p where "find_victim (range_entries ps ord) bullet = Some (v, p)"
    "ps v = Some p" "hit_by bullet p"
proof -
  have "(k0, p0) \<in> set (range_entries ps ord)"
    using k by (simp add: set_range_entries_order[OF ord])
  with h have "find_victim (range_entries ps ord) bullet \<noteq> None"
    by (auto simp add: find_victim_None)
  then obtain v p where fv: "find_victim (range_entries ps ord) bullet = Some (v, p)"
    by (cases "find_victim (range_entries ps ord) bullet") auto
  from find_victim_Some[OF fv] have "ps v = Some p" "hit_by bullet p"
    by (simp_all add: set_range_entries)
  with fv that show thesis by blast
qed

text \<open>
  C4. A tick that finds an alive player, not the owner, on the bullet's new cell hits one
  such player \<open>v\<close>: it marks \<open>v\<close> dead, adds one to the deaths of \<open>v\<close>, sets RespawnAt to
  now plus 3 seconds, adds one to the kills of the shooter if the shooter is still
  registered, changes no other player and removes the bullet; and while the dead flag of
  \<open>v\<close> is set, movePlayer and shootBullet of \<open>v\<close> return false and change nothing.
\<close>

theorem bullet_hit:
  assumes ord: "range_order (players gs) ord"
    and wf: "wf_players (players gs)"
    and b: "Bullets (world gs) bulletID = Some b"
    and inw: "in_world (bX b + DirX b) (bY b + DirY b)"
    and k0: "players gs k0 = Some p0"
    and h0: "hit_by (advance b) p0"
  shows "\<exists>v p. players gs v = Some p \<and> hit_by (advance b) p
      \<and> fst (moveBullet_tick gs ord bulletID now) = Hit v
      \<and> players (snd (moveBullet_tick gs ord bulletID now)) v =
           Some (p\<lparr>Dead := True, Deaths := Deaths p + 1, RespawnAt := now + 3000000000\<rparr>)
      \<and> players (snd (moveBullet_tick gs ord bulletID now)) (OwnerID b) =
           map_option (\<lambda>s. s\<lparr>Kills := Kills s + 1\<rparr>) (players gs (OwnerID b))
      \<and> (\<forall>k. k \<noteq> v \<and> k \<noteq> OwnerID b \<longrightarrow>
             players (snd (moveBullet_tick gs ord bulletID now)) k = players gs k)
      \<and> Bullets (world (snd (moveBullet_tick gs ord bulletID now))) =
           (Bullets (world gs))(bulletID := None)
      \<and> (\<forall>gs' ord' q direction t t_since t_id t_stamp.
            players gs' v = Some q \<and> Dead q \<longrightarrow>
              movePlayer gs' ord' v direction t = (False, gs')
              \<and> shootBullet gs' v direction t_since t_id t_stamp = (False, gs'))"
proof -
  from ord k0 h0 obtain v p
    where fv: "find_victim (range_entries (players gs) ord) (advance b) = Some (v, p)"
      and v: "players gs v = Some p" and h: "hit_by (advance b) p"
    by (rule find_victim_exists)
  have id: "ID p = v" using wf v by (rule wf_players_ID)
  with h have ne: "OwnerID b \<noteq> v" by (auto simp add: hit_by_def)
  have r: "RESPAWN_TIME = 3000000000" by (simp add: RESPAWN_TIME_def Second_def Millisecond_def)
  note t = moveBullet_tick_hit[OF b inw fv, of now]
  have "fst (moveBullet_tick gs ord bulletID now) = Hit v" by (simp add: t id)
  moreover have "players (snd (moveBullet_tick gs ord bulletID now)) v =
           Some (p\<lparr>Dead := True, Deaths := Deaths p + 1, RespawnAt := now + 3000000000\<rparr>)"
    by (simp add: t credit_kill_victim[OF ne] killed_def r)
  moreover have "players (snd (moveBullet_tick gs ord bulletID now)) (OwnerID b) =
           map_option (\<lambda>s. s\<lparr>Kills := Kills s + 1\<rparr>) (players gs (OwnerID b))"
    by (simp add: t credit_kill_owner[OF ne])
  moreover have "\<forall>k. k \<noteq> v \<and> k \<noteq> OwnerID b \<longrightarrow>
             players (snd (moveBullet_tick gs ord bulletID now)) k = players gs k"
    by (simp add: t credit_kill_other)
  moreover have "Bullets (world (snd (moveBullet_tick gs ord bulletID now))) =
           (Bullets (world gs))(bulletID := None)"
    by (simp add: t)
  moreover have "\<forall>gs' ord' q direction t t_since t_id t_stamp.
            players gs' v = Some q \<and> Dead q \<longrightarrow>
              movePlayer gs' ord' v direction t = (False, gs')
              \<and> shootBullet gs' v direction t_since t_id t_stamp = (False, gs')"
    by (simp add: movePlayer_dead shootBullet_dead)
  ultimately show ?thesis using v h by blast
qed


lemma duel_shot_players [simp]: "players duel_shot = players duel"
  by (simp add: duel_shot_def)

lemma duel_players_cases:
  "players duel v = Some p \<Longrightarrow>
     (v = ''p1'' \<and> p = mkPlayer ''p1'' ''A'' 5 0 False False) \<or>
     (v = ''p2'' \<and> p = mkPlayer ''p2'' ''B'' 6 0 False False)"
  by (auto simp add: duel_def split: if_splits)

theorem bullet_hit_witness:
  "range_order (players duel_shot) [''p1'', ''p2'']
   \<and> wf_players (players duel_shot)
   \<and> Bullets (world duel_shot) ''bullet_1000'' = Some duel_bullet
   \<and> in_world (bX duel_bullet + DirX duel_bullet) (bY duel_bullet + DirY duel_bullet)
   \<and> players duel_shot ''p2'' = Some (mkPlayer ''p2'' ''B'' 6 0 False False)
   \<and> hit_by (advance duel_bullet) (mkPlayer ''p2'' ''B'' 6 0 False False)
   \<and> fst (moveBullet_tick duel_shot [''p1'', ''p2''] ''bullet_1000'' 2000) = Hit ''p2''
   \<and> map_option (\<lambda>p. (Dead p, Deaths p, RespawnAt p))
         (players (snd (moveBullet_tick duel_shot [''p1'', ''p2''] ''bullet_1000'' 2000)) ''p2'')
       = Some (True, 1, 3000002000)
   \<and> map_option Kills
         (players (snd (moveBullet_tick duel_shot [''p1'', ''p2''] ''bullet_1000'' 2000)) ''p1'')
       = Some 1
   \<and> Bullets (world (snd (moveBullet_tick duel_shot [''p1'', ''p2''] ''bullet_1000'' 2000)))
         ''bullet_1000'' = None
   \<and> fst (movePlayer (snd (moveBullet_tick duel_shot [''p1'', ''p2''] ''bullet_1000'' 2000))
         [''p1'', ''p2''] ''p2'' ''left'' 2500) = False
   \<and> fst (shootBullet (snd (moveBullet_tick duel_shot [''p1'', ''p2''] ''bullet_1000'' 2000))
         ''p2'' ''left'' 2500 2501 2502) = False"
proof -
  let ?t = "moveBullet_tick duel_shot [''p1'', ''p2''] ''bullet_1000'' 2000"
  have ord: "range_order (players duel_shot) [''p1'', ''p2'']" by (simp add: duel_order)
  have wf: "wf_players (players duel_shot)" by (simp add: wf_duel)
  have b: "Bullets (world duel_shot) ''bullet_1000'' = Some duel_bullet"
    by (simp add: duel_shot_def)
  have inw: "in_world (bX duel_bullet + DirX duel_bullet) (bY duel_bullet + DirY duel_bullet)"
    by (simp add: duel_bullet_def in_world_def WORLD_WIDTH_def WORLD_HEIGHT_def)
  have k0: "players duel_shot ''p2'' = Some (mkPlayer ''p2'' ''B'' 6 0 False False)"
    by (simp add: duel_def)
  have h0: "hit_by (advance duel_bullet) (mkPlayer ''p2'' ''B'' 6 0 False False)"
    by (simp add: hit_by_def duel_bullet_def mkPlayer_def)
  have own: "OwnerID duel_bullet = ''p1''" by (simp add: duel_bullet_def)
  have p1: "players duel ''p1'' = Some (mkPlayer ''p1'' ''A'' 5 0 False False)"
    by (simp add: duel_def)
  from bullet_hit[OF ord wf b inw k0 h0, of 2000] obtain v p where
    v: "players duel_shot v = Some p" and h: "hit_by (advance duel_bullet) p"
    and r1: "fst ?t = Hit v"
    and r2: "players (snd ?t) v = Some (p\<lparr>Dead := True, Deaths := Deaths p + 1, RespawnAt := 2000 + 3000000000\<rparr>)"
    and r3: "players (snd ?t) (OwnerID duel_bullet) =
           map_option (\<lambda>s. s\<lparr>Kills := Kills s + 1\<rparr>) (players duel_shot (OwnerID duel_bullet))"
    and r5: "Bullets (world (snd ?t)) = (Bullets (world duel_shot))(''bullet_1000'' := None)"
    and r6: "\<forall>gs' ord' q direction t t_since t_id t_stamp.
            players gs' v = Some q \<and> Dead q \<longrightarrow>
              movePlayer gs' ord' v direction t = (False, gs')
              \<and> shootBullet gs' v direction t_since t_id t_stamp = (False, gs')"
    by blast
  from v have "(v = ''p1'' \<and> p = mkPlayer ''p1'' ''A'' 5 0 False False) \<or>
     (v = ''p2'' \<and> p = mkPlayer ''p2'' ''B'' 6 0 False False)"
    by (simp add: duel_players_cases)
  moreover have "\<not> hit_by (advance duel_bullet) (mkPlayer ''p1'' ''A'' 5 0 False False)"
    by (simp add: hit_by_def duel_bullet_def mkPlayer_def)
  ultimately have vp: "v = ''p2''" "p = mkPlayer ''p2'' ''B'' 6 0 False False"
    using h by auto
  have d: "players (snd ?t) ''p2'' =
      Some ((mkPlayer ''p2'' ''B'' 6 0 False False)\<lparr>Dead := True, Deaths := 1, RespawnAt := 3000002000\<rparr>)"
    using r2 unfolding vp by (simp add: mkPlayer_def)
  have c1: "fst ?t = Hit ''p2''" using r1 vp by simp
  have c2: "map_option (\<lambda>p. (Dead p, Deaths p, RespawnAt p)) (players (snd ?t) ''p2'') = Some (True, 1, 3000002000)"
    by (simp add: d)
  have c3: "map_option Kills (players (snd ?t) ''p1'') = Some 1"
    using r3 unfolding own by (simp add: p1 mkPlayer_def)
  have c4: "Bullets (world (snd ?t)) ''bullet_1000'' = None" by (simp add: r5)
  have c5: "fst (movePlayer (snd ?t) [''p1'', ''p2''] ''p2'' ''left'' 2500) = False"
    using r6 unfolding vp by (simp add: d)
  have c6: "fst (shootBullet (snd ?t) ''p2'' ''left'' 2500 2501 2502) = False"
    using r6 unfolding vp by (simp add: d)
  from ord wf b inw k0 h0 c1 c2 c3 c4 c5 c6 show ?thesis by (intro conjI)
qed

lemma movePlayer_blocked:
  assumes ord: "range_order (players gs) ord"
    and p: "players gs playerID = Some p"
    and t: "move_target p direction = Some (x, y)"
    and o: "other_alive_at (players gs) playerID (x, y)"
  shows "movePlayer gs ord playerID direction now = (False, gs)"
  using o by (simp add: movePlayer_def p t cell_blocked_other_alive_at[OF ord])

lemma find_victim_first_target:
  "find_victim (range_entries ps ord) bullet = Some (v, p) \<Longrightarrow> first_target ord ps bullet = Some v"
proof (induction ord)
  case Nil
  then show ?case by (simp add: range_entries_def map_filter_simps)
next
  case (Cons k ks)
  show ?case
  proof (cases "ps k")
    case None
    with Cons show ?thesis by (simp add: range_entries_def map_filter_simps first_target_def)
  next
    case (Some q)
    with Cons show ?thesis
      by (auto simp add: range_entries_def map_filter_simps first_target_def hit_by_def
            split: if_splits)
  qed
qed

text \<open>
  C10, amended. An alive spectator takes part in collisions and hits like any other
  player: a move of any player whose new cell is the spectator's cell returns false and
  changes nothing, and a tick of a bullet, not the spectator's own, whose new cell holds
  the spectator kills the first player of the range that is alive, on that cell and not
  the owner, the spectator if the range meets no other such player before it: dead flag,
  one more death, one more kill for the shooter; the players that the scan did not stop
  at stay as they are.
\<close>

theorem spectator_collides:
  assumes ord: "range_order (players gs) ord"
    and wf: "wf_players (players gs)"
    and sp: "players gs sid = Some sp"
    and spec: "IsSpectator sp"
    and alive: "\<not> Dead sp"
  shows "(\<forall>playerID p direction now.
            players gs playerID = Some p \<and> move_target p direction = Some (X sp, Y sp) \<longrightarrow>
              movePlayer gs ord playerID direction now = (False, gs))
     \<and> (\<forall>bulletID b now.
            Bullets (world gs) bulletID = Some b \<and> in_world (bX b + DirX b) (bY b + DirY b)
            \<and> hit_by (advance b) sp \<longrightarrow>
              (\<exists>v p. first_target ord (players gs) (advance b) = Some v
                 \<and> players gs v = Some p \<and> hit_by (advance b) p
                 \<and> fst (moveBullet_tick gs ord bulletID now) = Hit v
                 \<and> players (snd (moveBullet_tick gs ord bulletID now)) v =
                      Some (p\<lparr>Dead := True, Deaths := Deaths p + 1, RespawnAt := now + 3000000000\<rparr>)
                 \<and> players (snd (moveBullet_tick gs ord bulletID now)) (OwnerID b) =
                      map_option (\<lambda>s. s\<lparr>Kills := Kills s + 1\<rparr>) (players gs (OwnerID b))
                 \<and> (\<forall>k. k \<noteq> v \<and> k \<noteq> OwnerID b \<longrightarrow>
                        players (snd (moveBullet_tick gs ord bulletID now)) k = players gs k)
                 \<and> Bullets (world (snd (moveBullet_tick gs ord bulletID now))) bulletID = None))"
proof (rule conjI; intro allI impI)
  fix playerID p direction now
  assume a: "players gs playerID = Some p \<and> move_target p direction = Some (X sp, Y sp)"
  have id: "ID sp = sid" using wf sp by (rule wf_players_ID)
  show "movePlayer gs ord playerID direction now = (False, gs)"
  proof (cases "playerID = sid")
    case True
    with a sp have "p = sp" by simp
    with spec a show ?thesis by (simp add: movePlayer_def)
  next
    case False
    with sp alive id have "other_alive_at (players gs) playerID (X sp, Y sp)"
      by (auto simp add: other_alive_at_def)
    with ord a show ?thesis by (auto intro: movePlayer_blocked)
  qed
next
  fix bulletID b now
  assume a: "Bullets (world gs) bulletID = Some b \<and> in_world (bX b + DirX b) (bY b + DirY b)
            \<and> hit_by (advance b) sp"
  then have b: "Bullets (world gs) bulletID = Some b"
    and inw: "in_world (bX b + DirX b) (bY b + DirY b)"
    and h: "hit_by (advance b) sp"
    by simp_all
  from ord sp h obtain v p
    where fv: "find_victim (range_entries (players gs) ord) (advance b) = Some (v, p)"
      and v: "players gs v = Some p" and hp: "hit_by (advance b) p"
    by (rule find_victim_exists)
  have ft: "first_target ord (players gs) (advance b) = Some v"
    using fv by (rule find_victim_first_target)
  have id: "ID p = v" using wf v by (rule wf_players_ID)
  with hp have ne: "OwnerID b \<noteq> v" by (auto simp add: hit_by_def)
  have r: "RESPAWN_TIME = 3000000000" by (simp add: RESPAWN_TIME_def Second_def Millisecond_def)
  note t = moveBullet_tick_hit[OF b inw fv, of now]
  have "fst (moveBullet_tick gs ord bulletID now) = Hit v
      \<and> players (snd (moveBullet_tick gs ord bulletID now)) v =
           Some (p\<lparr>Dead := True, Deaths := Deaths p + 1, RespawnAt := now + 3000000000\<rparr>)
      \<and> players (snd (moveBullet_tick gs ord bulletID now)) (OwnerID b) =
           map_option (\<lambda>s. s\<lparr>Kills := Kills s + 1\<rparr>) (players gs (OwnerID b))
      \<and> (\<forall>k. k \<noteq> v \<and> k \<noteq> OwnerID b \<longrightarrow>
             players (snd (moveBullet_tick gs ord bulletID now)) k = players gs k)
      \<and> Bullets (world (snd (moveBullet_tick gs ord bulletID now))) bulletID = None"
    by (simp add: t id credit_kill_victim[OF ne] credit_kill_owner[OF ne] credit_kill_other
          killed_def r)
  with ft v hp show "\<exists>v p. first_target ord (players gs) (advance b) = Some v
                 \<and> players gs v = Some p \<and> hit_by (advance b) p
                 \<and> fst (moveBullet_tick gs ord bulletID now) = Hit v
                 \<and> players (snd (moveBullet_tick gs ord bulletID now)) v =
                      Some (p\<lparr>Dead := True, Deaths := Deaths p + 1, RespawnAt := now + 3000000000\<rparr>)
                 \<and> players (snd (moveBullet_tick gs ord bulletID now)) (OwnerID b) =
                      map_option (\<lambda>s. s\<lparr>Kills := Kills s + 1\<rparr>) (players gs (OwnerID b))
                 \<and> (\<forall>k. k \<noteq> v \<and> k \<noteq> OwnerID b \<longrightarrow>
                        players (snd (moveBullet_tick gs ord bulletID now)) k = players gs k)
                 \<and> Bullets (world (snd (moveBullet_tick gs ord bulletID now))) bulletID = None"
    by blast
qed

lemma gallery_order: "range_order (players gallery) [''p1'', ''p9'']"
  by (auto simp add: range_order_def gallery_def)

lemma wf_gallery: "wf_players (players gallery)"
  unfolding gallery_def
  by (simp add: wf_players_upd wf_players_empty mkPlayer_def in_world_def WORLD_WIDTH_def WORLD_HEIGHT_def)

lemma gallery_players_cases:
  "players gallery v = Some p \<Longrightarrow>
     (v = ''p1'' \<and> p = mkPlayer ''p1'' ''A'' 74 20 False False) \<or>
     (v = ''p9'' \<and> p = mkPlayer ''p9'' ''S'' 75 20 False True)"
  by (auto simp add: gallery_def split: if_splits)

theorem spectator_collides_witness:
  "range_order (players gallery) [''p1'', ''p9'']
   \<and> wf_players (players gallery)
   \<and> players gallery ''p9'' = Some (mkPlayer ''p9'' ''S'' 75 20 False True)
   \<and> IsSpectator (mkPlayer ''p9'' ''S'' 75 20 False True)
   \<and> \<not> Dead (mkPlayer ''p9'' ''S'' 75 20 False True)
   \<and> movePlayer gallery [''p1'', ''p9''] ''p1'' ''right'' 2000 = (False, gallery)
   \<and> first_target [''p1'', ''p9''] (players gallery) (advance gallery_bullet) = Some ''p9''
   \<and> fst (moveBullet_tick gallery [''p1'', ''p9''] ''bullet_1000'' 2000) = Hit ''p9''
   \<and> map_option (\<lambda>p. (Dead p, Deaths p, IsSpectator p))
        (players (snd (moveBullet_tick gallery [''p1'', ''p9''] ''bullet_1000'' 2000)) ''p9'')
       = Some (True, 1, True)
   \<and> map_option Kills
        (players (snd (moveBullet_tick gallery [''p1'', ''p9''] ''bullet_1000'' 2000)) ''p1'')
       = Some 1"
proof -
  let ?s = "mkPlayer ''p9'' ''S'' 75 20 False True"
  let ?a = "mkPlayer ''p1'' ''A'' 74 20 False False"
  let ?t = "moveBullet_tick gallery [''p1'', ''p9''] ''bullet_1000'' 2000"
  have sp: "players gallery ''p9'' = Some ?s" by (simp add: gallery_def)
  have spec: "IsSpectator ?s" and alive: "\<not> Dead ?s" by (simp_all add: mkPlayer_def)
  note th = spectator_collides[OF gallery_order wf_gallery sp spec alive]
  have p1: "players gallery ''p1'' = Some ?a" by (simp add: gallery_def)
  have "in_world (X ?a) (Y ?a)"
    by (simp add: mkPlayer_def in_world_def WORLD_WIDTH_def WORLD_HEIGHT_def)
  then have "move_target ?a ''right'' = map_option (clamped_cell ?a) (direction_vector ''right'')"
    by (rule move_target_in_world)
  then have mt: "move_target ?a ''right'' = Some (X ?s, Y ?s)"
    by (simp add: direction_vector_def clamped_cell_def mkPlayer_def WORLD_WIDTH_def WORLD_HEIGHT_def)
  from th p1 mt have c1: "movePlayer gallery [''p1'', ''p9''] ''p1'' ''right'' 2000 = (False, gallery)"
    by blast
  have b: "Bullets (world gallery) ''bullet_1000'' = Some gallery_bullet"
    by (simp add: gallery_def)
  have inw: "in_world (bX gallery_bullet + DirX gallery_bullet) (bY gallery_bullet + DirY gallery_bullet)"
    by (simp add: gallery_bullet_def in_world_def WORLD_WIDTH_def WORLD_HEIGHT_def)
  have h: "hit_by (advance gallery_bullet) ?s"
    by (simp add: hit_by_def gallery_bullet_def mkPlayer_def)
  have nh: "\<not> hit_by (advance gallery_bullet) ?a"
    by (simp add: hit_by_def gallery_bullet_def mkPlayer_def)
  have ft: "first_target [''p1'', ''p9''] (players gallery) (advance gallery_bullet) = Some ''p9''"
    by (simp add: first_target_def p1 sp h nh)
  have own: "OwnerID gallery_bullet = ''p1''" by (simp add: gallery_bullet_def)
  from th b inw h obtain v p where
    r0: "first_target [''p1'', ''p9''] (players gallery) (advance gallery_bullet) = Some v"
    and v: "players gallery v = Some p"
    and r1: "fst ?t = Hit v"
    and r2: "players (snd ?t) v = Some (p\<lparr>Dead := True, Deaths := Deaths p + 1, RespawnAt := 2000 + 3000000000\<rparr>)"
    and r3: "players (snd ?t) (OwnerID gallery_bullet) =
          map_option (\<lambda>s. s\<lparr>Kills := Kills s + 1\<rparr>) (players gallery (OwnerID gallery_bullet))"
    by blast
  from r0 ft have vv: "v = ''p9''" by simp
  with v sp have pp: "p = ?s" by simp
  from r1 have c2: "fst ?t = Hit ''p9''" by (simp add: vv)
  from r2 have c3: "map_option (\<lambda>p. (Dead p, Deaths p, IsSpectator p)) (players (snd ?t) ''p9'') = Some (True, 1, True)"
    unfolding vv pp by (simp add: mkPlayer_def)
  from r3 have c4: "map_option Kills (players (snd ?t) ''p1'') = Some 1"
    unfolding own by (simp add: p1 mkPlayer_def)
  from gallery_order wf_gallery sp spec alive c1 ft c2 c3 c4 show ?thesis by (intro conjI)
qed

lemma show_nat_digit: "n < 10 \<Longrightarrow> show_nat n = [digit_char n]"
  by (simp add: show_nat.simps)

lemma digit_chars:
  "digit_char 0 = CHR ''0''" "digit_char 1 = CHR ''1''" "digit_char 2 = CHR ''2''"
  "digit_char 3 = CHR ''3''" "digit_char 4 = CHR ''4''" "digit_char 5 = CHR ''5''"
  "digit_char 6 = CHR ''6''" "digit_char 7 = CHR ''7''" "digit_char 8 = CHR ''8''"
  "digit_char 9 = CHR ''9''"
  by (simp_all add: digit_char_def)

lemma go_rem_nonneg: "0 \<le> a \<Longrightarrow> 0 < b \<Longrightarrow> go_rem a b = a mod b"
  by (cases "a = 0") (simp_all add: go_rem_def)

lemma world_centre: "go_quot WORLD_WIDTH 2 = 75" "go_quot WORLD_HEIGHT 2 = 20"
  by (simp_all add: go_quot_def WORLD_WIDTH_def WORLD_HEIGHT_def)

text \<open>
  C6. The join branch tests only the byte length of the character field: a request with
  the spectator flag set and an empty character is dropped by the \<^verbatim>\<open>continue\<close>, nothing is
  bound and the state stays as it was. The page served by the same file clears the
  character input when the spectator box is ticked, so its spectator joins are dropped.
\<close>

theorem spectator_join_rejected:
  "handle_join gameServer 7 None spectator_request 1000 1001 = (None, gameServer)"
  by (simp add: handle_join_def spectator_request_def)

lemma new_player_alice:
  "new_player alice_request 5 6 =
     \<lparr>ID = ''p5'', Name = ''alice'', X = 75, Y = 20, Character = ''A'', Kills = 0, Deaths = 0,
      LastSeen = 6, Dead = False, RespawnAt = zeroTime, LastShot = zeroTime, IsSpectator = False\<rparr>"
  by (simp add: new_player_def alice_request_def go_rem_nonneg show_int_def show_nat_digit
        digit_chars world_centre)

lemma new_player_bob:
  "new_player bob_request 10005 10006 =
     \<lparr>ID = ''p5'', Name = ''bob'', X = 75, Y = 20, Character = ''B'', Kills = 0, Deaths = 0,
      LastSeen = 10006, Dead = False, RespawnAt = zeroTime, LastShot = zeroTime, IsSpectator = False\<rparr>"
  by (simp add: new_player_def bob_request_def go_rem_nonneg show_int_def show_nat_digit
        digit_chars world_centre)

text \<open>
  C7. The id of a new player is the clock reading modulo 10000. Two joins whose readings
  differ by 10000 ns get the same id p5, and addClient stores the second player over the
  first: one entry is left, and both connections are bound to it.
\<close>

theorem join_replaces_player:
  "map_option Name (players (snd (handle_join gameServer 0 None alice_request 5 6)) ''p5'') = Some ''alice''
   \<and> map_option Name
        (players (snd (handle_join (snd (handle_join gameServer 0 None alice_request 5 6))
                         1 None bob_request 10005 10006)) ''p5'') = Some ''bob''
   \<and> dom (players (snd (handle_join (snd (handle_join gameServer 0 None alice_request 5 6))
                         1 None bob_request 10005 10006))) = {''p5''}
   \<and> clients (snd (handle_join (snd (handle_join gameServer 0 None alice_request 5 6))
                         1 None bob_request 10005 10006)) 0 = Some ''p5''
   \<and> clients (snd (handle_join (snd (handle_join gameServer 0 None alice_request 5 6))
                         1 None bob_request 10005 10006)) 1 = Some ''p5''"
proof -
  have a: "length (jCharacter alice_request) = 1" by (simp add: alice_request_def)
  have b: "length (jCharacter bob_request) = 1" by (simp add: bob_request_def)
  show ?thesis
    by (simp add: handle_join_def a b Let_def addClient_def new_player_alice new_player_bob
          gameServer_def)
qed

section \<open>What each operation does to the state\<close>


lemma Sub_ge: "c \<le> Sub t u \<Longrightarrow> - (2 ^ 63) < c \<Longrightarrow> c \<le> t - u"
  by (simp add: Sub_def max_def min_def split: if_splits)

lemma Sub_less: "t - u < c \<Longrightarrow> - (2 ^ 63) < c \<Longrightarrow> Sub t u < c"
  by (simp add: Sub_def max_def min_def split: if_splits)

lemma cooldown_value: "SHOOT_COOLDOWN = 500000000"
  by (simp add: SHOOT_COOLDOWN_def Millisecond_def)

lemma shootBullet_cooling:
  assumes "players gs playerID = Some p" and "t_since - LastShot p < 500000000"
  shows "shootBullet gs playerID direction t_since t_id t_stamp = (False, gs)"
proof -
  have "Sub t_since (LastShot p) < SHOOT_COOLDOWN"
    unfolding cooldown_value using assms(2) by (rule Sub_less) simp
  with assms(1) show ?thesis by (simp add: shootBullet_def)
qed

lemma shootBullet_shape:
  "shootBullet gs playerID direction t_since t_id t_stamp = (False, gs) \<or>
   (\<exists>p v. players gs playerID = Some p \<and> \<not> Dead p \<and> \<not> IsSpectator p
       \<and> 500000000 \<le> t_since - LastShot p \<and> direction_vector direction = Some v
       \<and> shootBullet gs playerID direction t_since t_id t_stamp =
           (True, gs\<lparr>world := (world gs)\<lparr>Bullets := (Bullets (world gs))(''bullet_'' @ show_int t_id \<mapsto>
                         \<lparr>bID = ''bullet_'' @ show_int t_id, bX = X p, bY = Y p, DirX = fst v, DirY = snd v,
                          OwnerID = playerID, bCharacter = ''*''\<rparr>)\<rparr>,
                    players := (players gs)(playerID \<mapsto> p\<lparr>LastShot := t_stamp\<rparr>)\<rparr>))"
proof (cases "players gs playerID")
  case None
  then show ?thesis by (simp add: shootBullet_def)
next
  case (Some p)
  show ?thesis
  proof (cases "Dead p \<or> IsSpectator p \<or> Sub t_since (LastShot p) < SHOOT_COOLDOWN
                \<or> direction_vector direction = None")
    case True
    then show ?thesis by (auto simp add: shootBullet_def Some)
  next
    case False
    then obtain v where v: "direction_vector direction = Some v" by auto
    from False have "SHOOT_COOLDOWN \<le> Sub t_since (LastShot p)" by simp
    then have "500000000 \<le> t_since - LastShot p"
      unfolding cooldown_value by (rule Sub_ge) simp
    with False v Some show ?thesis
      by (cases v) (simp add: shootBullet_def Let_def)
  qed
qed

lemma movePlayer_shape:
  "movePlayer gs ord playerID direction now = (False, gs) \<or>
   (\<exists>p x y. players gs playerID = Some p \<and> \<not> Dead p \<and> \<not> IsSpectator p
       \<and> move_target p direction = Some (x, y)
       \<and> \<not> cell_blocked (range_entries (players gs) ord) playerID x y
       \<and> movePlayer gs ord playerID direction now =
           (True, gs\<lparr>players := (players gs)(playerID \<mapsto> p\<lparr>X := x, Y := y, LastSeen := now\<rparr>)\<rparr>))"
  by (auto simp add: movePlayer_def split: option.splits)

lemma moveBullet_tick_shape:
  "snd (moveBullet_tick gs ord bulletID now) = gs \<or>
   (\<exists>b. Bullets (world gs) bulletID = Some b \<and>
      (snd (moveBullet_tick gs ord bulletID now) =
          gs\<lparr>world := (world gs)\<lparr>Bullets := (Bullets (world gs))(bulletID := None)\<rparr>\<rparr>
       \<or> snd (moveBullet_tick gs ord bulletID now) =
          gs\<lparr>world := (world gs)\<lparr>Bullets := (Bullets (world gs))(bulletID \<mapsto> advance b)\<rparr>\<rparr>
       \<or> (\<exists>k p. (k, p) \<in> set (range_entries (players gs) ord) \<and> hit_by (advance b) p
             \<and> snd (moveBullet_tick gs ord bulletID now) =
                  gs\<lparr>players := credit_kill ((players gs)(k \<mapsto> killed p now)) (OwnerID b),
                     world := (world gs)\<lparr>Bullets := (Bullets (world gs))(bulletID := None)\<rparr>\<rparr>)))"
proof (cases "Bullets (world gs) bulletID")
  case None
  then show ?thesis by (simp add: moveBullet_tick_gone)
next
  case (Some b)
  show ?thesis
  proof (cases "in_world (bX b + DirX b) (bY b + DirY b)")
    case False
    with Some show ?thesis by (simp add: moveBullet_tick_left)
  next
    case True
    show ?thesis
    proof (cases "find_victim (range_entries (players gs) ord) (advance b)")
      case None
      with Some True show ?thesis by (simp add: moveBullet_tick_miss)
    next
      case (Some kp)
      obtain k p where kp: "kp = (k, p)" by (cases kp)
      from Some[unfolded kp] find_victim_Some[of _ "advance b" k p]
      have "(k, p) \<in> set (range_entries (players gs) ord)" "hit_by (advance b) p" by auto
      with \<open>Bullets (world gs) bulletID = Some b\<close> True Some[unfolded kp] show ?thesis
        by (auto simp add: moveBullet_tick_hit)
    qed
  qed
qed

lemma cell_occupied_iff:
  "cell_occupied es x y \<longleftrightarrow> (\<exists>(k, q) \<in> set es. \<not> Dead q \<and> X q = x \<and> Y q = y)"
  by (induction es x y rule: cell_occupied.induct) auto

lemma respawn_attempts_Some:
  "respawn_attempts es clock attempts = Some (x, y) \<Longrightarrow>
     \<not> cell_occupied es x y \<and>
     (\<exists>i<50. x = go_rem (fst (clock i)) WORLD_WIDTH \<and> y = go_rem (snd (clock i)) WORLD_HEIGHT)"
proof (induction es clock attempts rule: respawn_attempts.induct)
  case (1 es clock attempts)
  show ?case
  proof (cases "attempts < 50")
    case False
    with "1.prems" show ?thesis by (simp add: respawn_attempts.simps)
  next
    case True
    show ?thesis
    proof (cases "cell_occupied es (go_rem (fst (clock attempts)) WORLD_WIDTH)
                    (go_rem (snd (clock attempts)) WORLD_HEIGHT)")
      case occ: True
      with True "1.prems" have "respawn_attempts es clock (attempts + 1) = Some (x, y)"
        by (simp add: respawn_attempts.simps[of es clock attempts] Let_def)
      with "1.IH"[OF True refl refl occ] show ?thesis by simp
    next
      case free: False
      with True "1.prems" have "x = go_rem (fst (clock attempts)) WORLD_WIDTH"
         "y = go_rem (snd (clock attempts)) WORLD_HEIGHT"
        by (simp_all add: respawn_attempts.simps[of es clock attempts] Let_def)
      with free True show ?thesis by auto
    qed
  qed
qed

lemma respawnPlayer_shape:
  "respawnPlayer gs ord playerID clock = gs \<or>
   (\<exists>p. players gs playerID = Some p \<and>
      ((\<exists>x y. respawn_attempts (range_entries (players gs) ord) clock 0 = Some (x, y)
           \<and> respawnPlayer gs ord playerID clock =
               gs\<lparr>players := (players gs)(playerID \<mapsto> p\<lparr>X := x, Y := y, Dead := False\<rparr>)\<rparr>)
       \<or> (respawn_attempts (range_entries (players gs) ord) clock 0 = None \<and> Dead p
           \<and> respawnPlayer gs ord playerID clock =
               gs\<lparr>players := (players gs)(playerID \<mapsto> p\<lparr>X := 75, Y := 20, Dead := False\<rparr>)\<rparr>)))"
proof (cases "players gs playerID")
  case None
  then show ?thesis by (simp add: respawnPlayer_def)
next
  case (Some p)
  show ?thesis
  proof (cases "respawn_attempts (range_entries (players gs) ord) clock 0")
    case None
    show ?thesis
    proof (cases "Dead p")
      case True
      with None Some show ?thesis by (simp add: respawnPlayer_def world_centre)
    next
      case False
      have "(players gs)(playerID \<mapsto> p) = players gs" using Some by (rule map_upd_triv)
      with False None Some show ?thesis by (simp add: respawnPlayer_def)
    qed
  next
    case (Some xy)
    with \<open>players gs playerID = Some p\<close> show ?thesis
      by (cases xy) (simp add: respawnPlayer_def)
  qed
qed

lemma handle_join_shape:
  "snd (handle_join gs conn bound joinData t_id t_seen) = gs \<or>
   (length (jCharacter joinData) = 1 \<and>
    snd (handle_join gs conn bound joinData t_id t_seen) =
      gs\<lparr>clients := (clients gs)(conn \<mapsto> ID (new_player joinData t_id t_seen)),
         players := (players gs)(ID (new_player joinData t_id t_seen) \<mapsto> new_player joinData t_id t_seen)\<rparr>)"
  by (simp add: handle_join_def addClient_def Let_def)

lemma removeClient_shape:
  "removeClient gs conn = gs \<or>
   (\<exists>playerID. clients gs conn = Some playerID \<and>
      removeClient gs conn =
        gs\<lparr>clients := (clients gs)(conn := None), players := (players gs)(playerID := None)\<rparr>)"
  by (simp add: removeClient_def split: option.splits)

section \<open>The shoot cooldown\<close>

lemma run_append: "run gs (es @ es') = run (run gs es) es'"
  by (induction es arbitrary: gs) simp_all

lemma admissible_append:
  "admissible t gs (es @ es') \<longleftrightarrow> admissible t gs es \<and> admissible (run_end t es) (run gs es) es'"
  by (induction es arbitrary: t gs) simp_all

lemma event_end_ge: "event_ok t gs e \<Longrightarrow> t \<le> event_end t e"
  by (cases e) simp_all

lemma credit_kill_lookup:
  "credit_kill ps owner k = Some q' \<Longrightarrow>
     \<exists>q. ps k = Some q \<and> (q' = q \<or> q' = q\<lparr>Kills := Kills q + 1\<rparr>)"
  by (auto simp add: credit_kill_def split: option.splits if_splits)

lemma moveBullet_tick_players:
  "players (snd (moveBullet_tick gs ord bulletID now)) = players gs \<or>
   (\<exists>b k p. Bullets (world gs) bulletID = Some b \<and> players gs k = Some p \<and> hit_by (advance b) p
      \<and> players (snd (moveBullet_tick gs ord bulletID now)) =
            credit_kill ((players gs)(k \<mapsto> killed p now)) (OwnerID b))"
proof -
  from moveBullet_tick_shape[of gs ord bulletID now] show ?thesis
  proof (elim disjE exE conjE)
    fix b k p
    assume "Bullets (world gs) bulletID = Some b" "(k, p) \<in> set (range_entries (players gs) ord)"
      "hit_by (advance b) p"
      "snd (moveBullet_tick gs ord bulletID now) =
         gs\<lparr>players := credit_kill ((players gs)(k \<mapsto> killed p now)) (OwnerID b),
            world := (world gs)\<lparr>Bullets := (Bullets (world gs))(bulletID := None)\<rparr>\<rparr>"
    moreover from this have "players gs k = Some p" by (simp add: set_range_entries)
    ultimately show ?thesis by auto
  qed simp_all
qed

lemma step_shot_since:
  assumes ok: "event_ok t gs e" and nj: "\<not> joins_as playerID e" and le: "t0 \<le> t"
    and inv: "shot_since t0 playerID gs"
  shows "shot_since t0 playerID (step gs e)"
proof (cases e)
  case (Join conn joinData t_id t_seen)
  with nj handle_join_shape[of gs conn None joinData t_id t_seen] inv show ?thesis
    by (auto simp add: shot_since_def)
next
  case (Move pid direction now ord)
  with movePlayer_shape[of gs ord pid direction now] inv show ?thesis
    by (auto simp add: shot_since_def split: if_splits)
next
  case (Shoot pid direction t_since t_id t_stamp)
  with ok le have "t0 \<le> t_stamp" by simp
  with Shoot shootBullet_shape[of gs pid direction t_since t_id t_stamp] inv show ?thesis
    by (auto simp add: shot_since_def split: if_splits)
next
  case (Tick n now ord)
  show ?thesis
    unfolding shot_since_def
  proof (intro allI impI)
    fix q assume q: "players (step gs e) playerID = Some q"
    define bid where "bid = ''bullet_'' @ show_int n"
    have st: "step gs e = snd (moveBullet_tick gs ord bid now)" by (simp add: Tick bid_def)
    from moveBullet_tick_players[of gs ord bid now]
    show "t0 \<le> LastShot q"
    proof (elim disjE exE conjE)
      assume "players (snd (moveBullet_tick gs ord bid now)) = players gs"
      with q inv show ?thesis by (simp add: shot_since_def st)
    next
      fix b k p
      assume kp: "players gs k = Some p"
        and 2: "players (snd (moveBullet_tick gs ord bid now)) =
            credit_kill ((players gs)(k \<mapsto> killed p now)) (OwnerID b)"
      from q 2 st obtain q0 where
        q0: "((players gs)(k \<mapsto> killed p now)) playerID = Some q0" and "LastShot q = LastShot q0"
        by (auto dest: credit_kill_lookup)
      moreover from q0 kp inv have "t0 \<le> LastShot q0"
        by (auto simp add: shot_since_def killed_def split: if_splits)
      ultimately show ?thesis by simp
    qed
  qed
next
  case (Respawn pid clock ord)
  with respawnPlayer_shape[of gs ord pid clock] inv show ?thesis
    by (auto simp add: shot_since_def split: if_splits)
next
  case (Leave conn)
  with removeClient_shape[of gs conn] inv show ?thesis
    by (auto simp add: shot_since_def split: if_splits)
qed

lemma run_shot_since:
  "admissible t gs es \<Longrightarrow> list_all (\<lambda>e. \<not> joins_as playerID e) es \<Longrightarrow> t0 \<le> t \<Longrightarrow>
   shot_since t0 playerID gs \<Longrightarrow> shot_since t0 playerID (run gs es)"
proof (induction es arbitrary: t gs)
  case Nil
  then show ?case by simp
next
  case (Cons e es)
  from Cons.prems have ok: "event_ok t gs e" and adm: "admissible (event_end t e) (step gs e) es"
    and nj: "\<not> joins_as playerID e" and njs: "list_all (\<lambda>e. \<not> joins_as playerID e) es"
    by simp_all
  from ok Cons.prems(3) have "t0 \<le> event_end t e" using event_end_ge by fastforce
  moreover from ok nj Cons.prems(3,4) have "shot_since t0 playerID (step gs e)"
    by (rule step_shot_since)
  ultimately show ?case using Cons.IH[OF adm njs] by simp
qed

text \<open>
  The cooldown between two joins. shootBullet returns false, and changes nothing, when
  less than 500 ms have passed since the LastShot of the player; a successful shot stamps
  LastShot; hence in a run whose clock never runs backwards, two successful shots under
  one id with no join registering that id anew in between are at least 500 ms apart,
  whether the time of a shot is read at its cooldown test, at the creation of its bullet
  or at its stamp.
\<close>

theorem shoot_cooldown:
  "(\<forall>p. players gs playerID = Some p \<and> t_since - LastShot p < 500000000 \<longrightarrow>
       shootBullet gs playerID direction t_since t_id t_stamp = (False, gs))
   \<and> (fst (shootBullet gs playerID direction t_since t_id t_stamp) \<longrightarrow>
       map_option LastShot
         (players (snd (shootBullet gs playerID direction t_since t_id t_stamp)) playerID) = Some t_stamp)
   \<and> (admissible t gs (Shoot playerID direction t_since t_id t_stamp # es @
                         [Shoot playerID direction' u_since u_id u_stamp])
      \<and> list_all (\<lambda>e. \<not> joins_as playerID e) es
      \<and> fst (shootBullet gs playerID direction t_since t_id t_stamp)
      \<and> fst (shootBullet (run gs (Shoot playerID direction t_since t_id t_stamp # es))
                playerID direction' u_since u_id u_stamp)
      \<longrightarrow> 500000000 \<le> u_since - t_stamp \<and> 500000000 \<le> u_id - t_id
          \<and> 500000000 \<le> u_stamp - t_stamp)"
proof (intro conjI allI impI)
  fix p assume "players gs playerID = Some p \<and> t_since - LastShot p < 500000000"
  then show "shootBullet gs playerID direction t_since t_id t_stamp = (False, gs)"
    by (auto intro: shootBullet_cooling)
next
  assume "fst (shootBullet gs playerID direction t_since t_id t_stamp)"
  with shootBullet_shape[of gs playerID direction t_since t_id t_stamp]
  show "map_option LastShot
         (players (snd (shootBullet gs playerID direction t_since t_id t_stamp)) playerID) = Some t_stamp"
    by auto
next
  let ?e = "Shoot playerID direction t_since t_id t_stamp"
  let ?f = "Shoot playerID direction' u_since u_id u_stamp"
  assume a: "admissible t gs (?e # es @ [?f])
      \<and> list_all (\<lambda>e. \<not> joins_as playerID e) es
      \<and> fst (shootBullet gs playerID direction t_since t_id t_stamp)
      \<and> fst (shootBullet (run gs (?e # es)) playerID direction' u_since u_id u_stamp)"
  then have ok1: "event_ok t gs ?e"
    and adm: "admissible t_stamp (step gs ?e) (es @ [?f])"
    and nj: "list_all (\<lambda>e. \<not> joins_as playerID e) es"
    and s1: "fst (shootBullet gs playerID direction t_since t_id t_stamp)"
    and s2: "fst (shootBullet (run (step gs ?e) es) playerID direction' u_since u_id u_stamp)"
    by simp_all
  from adm have adm_es: "admissible t_stamp (step gs ?e) es"
    and ok2: "event_ok (run_end t_stamp es) (run (step gs ?e) es) ?f"
    by (simp_all add: admissible_append)
  from s1 shootBullet_shape[of gs playerID direction t_since t_id t_stamp]
  have "shot_since t_stamp playerID (step gs ?e)"
    by (auto simp add: shot_since_def)
  with adm_es nj have inv: "shot_since t_stamp playerID (run (step gs ?e) es)"
    using run_shot_since[of t_stamp "step gs ?e" es playerID t_stamp] by simp
  from s2 shootBullet_shape[of "run (step gs ?e) es" playerID direction' u_since u_id u_stamp]
  obtain q where "players (run (step gs ?e) es) playerID = Some q" "500000000 \<le> u_since - LastShot q"
    by auto
  with inv have "500000000 \<le> u_since - t_stamp" by (auto simp add: shot_since_def)
  moreover from ok1 have "t_since \<le> t_id" "t_id \<le> t_stamp" by simp_all
  moreover from ok2 have "u_since \<le> u_id" "u_id \<le> u_stamp" by simp_all
  ultimately show "500000000 \<le> u_since - t_stamp" "500000000 \<le> u_id - t_id"
    "500000000 \<le> u_stamp - t_stamp"
    by linarith+
qed


lemma duel_first_shot:
  "shootBullet duel ''p1'' ''right'' 1000 1001 1002 =
     (True, duel\<lparr>world := (world duel)\<lparr>Bullets := (Bullets (world duel))(''bullet_'' @ show_int 1001 \<mapsto>
                       \<lparr>bID = ''bullet_'' @ show_int 1001, bX = 5, bY = 0, DirX = 1, DirY = 0,
                        OwnerID = ''p1'', bCharacter = ''*''\<rparr>)\<rparr>,
                  players := (players duel)(''p1'' \<mapsto>
                       (mkPlayer ''p1'' ''A'' 5 0 False False)\<lparr>LastShot := 1002\<rparr>)\<rparr>)"
proof -
  have p1: "players duel ''p1'' = Some (mkPlayer ''p1'' ''A'' 5 0 False False)"
    by (simp add: duel_def)
  have c: "\<not> Sub 1000 (LastShot (mkPlayer ''p1'' ''A'' 5 0 False False)) < SHOOT_COOLDOWN"
    by (simp add: mkPlayer_def Sub_def zeroTime_def Second_def Millisecond_def SHOOT_COOLDOWN_def)
  have f: "\<not> Dead (mkPlayer ''p1'' ''A'' 5 0 False False)"
     "\<not> IsSpectator (mkPlayer ''p1'' ''A'' 5 0 False False)"
     "X (mkPlayer ''p1'' ''A'' 5 0 False False) = 5" "Y (mkPlayer ''p1'' ''A'' 5 0 False False) = 0"
    by (simp_all add: mkPlayer_def)
  show ?thesis
    by (simp add: shootBullet_def p1 c f direction_vector_def Let_def del: show_int_def)
qed

theorem shoot_cooldown_witness:
  "fst (shootBullet duel ''p1'' ''right'' 1000 1001 1002)
   \<and> map_option LastShot
        (players (snd (shootBullet duel ''p1'' ''right'' 1000 1001 1002)) ''p1'') = Some 1002
   \<and> shootBullet (snd (shootBullet duel ''p1'' ''right'' 1000 1001 1002))
         ''p1'' ''up'' 400000000 400000001 400000002
       = (False, snd (shootBullet duel ''p1'' ''right'' 1000 1001 1002))
   \<and> admissible 0 duel [Shoot ''p1'' ''right'' 1000 1001 1002, Leave 1,
                          Shoot ''p1'' ''up'' 600000000 600000001 600000002]
   \<and> list_all (\<lambda>e. \<not> joins_as ''p1'' e) [Leave 1]
   \<and> fst (shootBullet (run duel [Shoot ''p1'' ''right'' 1000 1001 1002, Leave 1])
             ''p1'' ''up'' 600000000 600000001 600000002)
   \<and> (500000000::int) \<le> 600000000 - 1002"
proof -
  define s1 where "s1 = snd (shootBullet duel ''p1'' ''right'' 1000 1001 1002)"
  let ?p = "(mkPlayer ''p1'' ''A'' 5 0 False False)\<lparr>LastShot := 1002\<rparr>"
  have a: "fst (shootBullet duel ''p1'' ''right'' 1000 1001 1002)"
    by (simp add: duel_first_shot)
  have p1: "players s1 ''p1'' = Some ?p" by (simp add: s1_def duel_first_shot)
  have b: "map_option LastShot (players s1 ''p1'') = Some 1002"
    unfolding s1_def
    using shoot_cooldown[of duel "''p1''" 1000 "''right''" 1001 1002] a by blast
  have "400000000 - LastShot ?p < 500000000" by simp
  with p1 have c: "shootBullet s1 ''p1'' ''up'' 400000000 400000001 400000002 = (False, s1)"
    using shoot_cooldown[of s1 "''p1''" 400000000 "''up''" 400000001 400000002] by blast
  have "clients s1 = clients duel" by (simp add: s1_def duel_first_shot)
  moreover have "clients duel 1 = Some ''p2''" by (simp add: duel_def)
  ultimately have "clients s1 1 = Some ''p2''" by simp
  then have s2: "run duel [Shoot ''p1'' ''right'' 1000 1001 1002, Leave 1] =
      s1\<lparr>clients := (clients s1)(1 := None), players := (players s1)(''p2'' := None)\<rparr>"
    by (simp add: removeClient_def s1_def)
  have d: "admissible 0 duel [Shoot ''p1'' ''right'' 1000 1001 1002, Leave 1,
                          Shoot ''p1'' ''up'' 600000000 600000001 600000002]"
    by simp
  have e: "list_all (\<lambda>e. \<not> joins_as ''p1'' e) [Leave 1]" by simp
  have c2: "\<not> Sub 600000000 1002 < SHOOT_COOLDOWN"
    by (simp add: Sub_def SHOOT_COOLDOWN_def Millisecond_def)
  have f: "\<not> Dead ?p" "\<not> IsSpectator ?p" by (simp_all add: mkPlayer_def)
  have g: "fst (shootBullet (run duel [Shoot ''p1'' ''right'' 1000 1001 1002, Leave 1])
             ''p1'' ''up'' 600000000 600000001 600000002)"
    unfolding s2 by (simp add: shootBullet_def p1 c2 f direction_vector_def Let_def)
  from a b c d e g show ?thesis unfolding s1_def by simp
qed

section \<open>Bullet ids\<close>

lemma digit_char_inj: "a < 10 \<Longrightarrow> b < 10 \<Longrightarrow> digit_char a = digit_char b \<Longrightarrow> a = b"
proof -
  assume a: "a < 10" and b: "b < 10" and e: "digit_char a = digit_char b"
  have d: "distinct ''0123456789''" by simp
  have l: "length ''0123456789'' = 10" by simp
  from e have "''0123456789'' ! a = ''0123456789'' ! b" by (simp only: digit_char_def)
  with nth_eq_iff_index_eq[OF d, of a b] a b l show "a = b" by simp
qed

lemma digit_char_not_minus: "d < 10 \<Longrightarrow> digit_char d \<noteq> CHR ''-''"
proof -
  assume "d < 10"
  then have "d = 0 \<or> d = 1 \<or> d = 2 \<or> d = 3 \<or> d = 4 \<or> d = 5 \<or> d = 6 \<or> d = 7 \<or> d = 8 \<or> d = 9"
    by arith
  then show ?thesis by (elim disjE) (simp_all add: digit_char_def)
qed

lemma show_nat_step: "10 \<le> n \<Longrightarrow> show_nat n = show_nat (n div 10) @ [digit_char (n mod 10)]"
  by (simp add: show_nat.simps[of n])

lemma show_nat_not_Nil: "show_nat n \<noteq> []"
  by (simp add: show_nat.simps[of n])

lemma length_show_nat: "length (show_nat n) = 1 \<longleftrightarrow> n < 10"
proof (cases "n < 10")
  case True
  then show ?thesis by (simp add: show_nat_digit)
next
  case False
  then have "length (show_nat n) = length (show_nat (n div 10)) + 1"
    by (simp add: show_nat_step)
  moreover have "0 < length (show_nat (n div 10))" using show_nat_not_Nil by simp
  ultimately show ?thesis using False by simp
qed

lemma show_nat_inj: "show_nat n = show_nat m \<Longrightarrow> n = m"
proof (induction n arbitrary: m rule: show_nat.induct)
  case (1 n)
  show ?case
  proof (cases "n < 10")
    case True
    with "1.prems" length_show_nat[of n] length_show_nat[of m] have m: "m < 10" by simp
    with True "1.prems" have "digit_char n = digit_char m" by (simp add: show_nat_digit)
    with True m show ?thesis by (rule digit_char_inj)
  next
    case False
    with "1.prems" length_show_nat[of n] length_show_nat[of m] have m: "\<not> m < 10" by simp
    from False m "1.prems"
    have "show_nat (n div 10) @ [digit_char (n mod 10)] = show_nat (m div 10) @ [digit_char (m mod 10)]"
      by (simp add: show_nat_step)
    then have e: "show_nat (n div 10) = show_nat (m div 10)" "digit_char (n mod 10) = digit_char (m mod 10)"
      by simp_all
    from "1.IH"[OF False e(1)] have "n div 10 = m div 10" .
    moreover from e(2) have "n mod 10 = m mod 10" by (rule digit_char_inj[rotated 2]) simp_all
    ultimately show ?thesis by (metis div_mult_mod_eq)
  qed
qed

lemma hd_show_nat: "hd (show_nat n) \<noteq> CHR ''-''"
proof (induction n rule: show_nat.induct)
  case (1 n)
  show ?case
  proof (cases "n < 10")
    case True
    then show ?thesis by (simp add: show_nat_digit digit_char_not_minus)
  next
    case False
    with "1.IH" show_nat_not_Nil[of "n div 10"] show ?thesis
      by (simp add: show_nat_step)
  qed
qed

lemma show_int_inj: "show_int a = show_int b \<Longrightarrow> a = b"
proof -
  assume e: "show_int a = show_int b"
  have neg: "\<And>x y. CHR ''-'' # show_nat x \<noteq> show_nat y"
  proof
    fix x y assume "CHR ''-'' # show_nat x = show_nat y"
    then have "hd (show_nat y) = CHR ''-''" by (metis list.sel(1))
    with hd_show_nat show False by blast
  qed
  show ?thesis
  proof (cases "a < 0")
    case True
    show ?thesis
    proof (cases "b < 0")
      case b: True
      with True e have "show_nat (nat (- a)) = show_nat (nat (- b))" by (simp add: show_int_def)
      then have "nat (- a) = nat (- b)" by (rule show_nat_inj)
      with True b show ?thesis by simp
    next
      case False
      with True e neg show ?thesis by (simp add: show_int_def)
    qed
  next
    case False
    show ?thesis
    proof (cases "b < 0")
      case True
      with False e neg[of "nat (- b)" "nat a"] show ?thesis by (simp add: show_int_def)
    next
      case b: False
      with False e have "show_nat (nat a) = show_nat (nat b)" by (simp add: show_int_def)
      then have "nat a = nat b" by (rule show_nat_inj)
      with False b show ?thesis by simp
    qed
  qed
qed

lemma bullet_id_inj: "''bullet_'' @ show_int a = ''bullet_'' @ show_int b \<longleftrightarrow> a = b"
  using show_int_inj by auto

section \<open>The life of a bullet\<close>

lemma step_bullet_absent:
  assumes ok: "event_ok t gs e" and lt: "n < t"
    and none: "Bullets (world gs) (''bullet_'' @ show_int n) = None"
  shows "Bullets (world (step gs e)) (''bullet_'' @ show_int n) = None"
proof (cases e)
  case (Join conn joinData t_id t_seen)
  with handle_join_shape[of gs conn None joinData t_id t_seen] none show ?thesis
    by auto
next
  case (Move pid direction now ord)
  with movePlayer_shape[of gs ord pid direction now] none show ?thesis
    by auto
next
  case (Shoot pid direction t_since t_id t_stamp)
  with ok lt have "t_id \<noteq> n" by simp
  then have "''bullet_'' @ show_int t_id \<noteq> ''bullet_'' @ show_int n"
    by (simp only: bullet_id_inj not_False_eq_True)
  with Shoot shootBullet_shape[of gs pid direction t_since t_id t_stamp] none show ?thesis
    by (auto simp del: append.simps)
next
  case (Tick n' now ord)
  define bid where "bid = ''bullet_'' @ show_int n"
  define bid' where "bid' = ''bullet_'' @ show_int n'"
  have st: "step gs e = snd (moveBullet_tick gs ord bid' now)" by (simp add: Tick bid'_def)
  from moveBullet_tick_shape[of gs ord bid' now] none[folded bid_def]
  have "Bullets (world (snd (moveBullet_tick gs ord bid' now))) bid = None"
    by (auto split: if_splits)
  then show ?thesis by (simp only: st bid_def)
next
  case (Respawn pid clock ord)
  with respawnPlayer_shape[of gs ord pid clock] none show ?thesis
    by auto
next
  case (Leave conn)
  with removeClient_shape[of gs conn] none show ?thesis
    by auto
qed

lemma run_bullet_absent:
  "admissible t gs es \<Longrightarrow> n < t \<Longrightarrow> Bullets (world gs) (''bullet_'' @ show_int n) = None \<Longrightarrow>
   Bullets (world (run gs es)) (''bullet_'' @ show_int n) = None"
proof (induction es arbitrary: t gs)
  case Nil
  then show ?case by simp
next
  case (Cons e es)
  from Cons.prems have ok: "event_ok t gs e" and adm: "admissible (event_end t e) (step gs e) es"
    by simp_all
  from ok Cons.prems(2) have "n < event_end t e" using event_end_ge by fastforce
  moreover from ok Cons.prems(2,3) have "Bullets (world (step gs e)) (''bullet_'' @ show_int n) = None"
    by (rule step_bullet_absent)
  ultimately show ?case using Cons.IH[OF adm] by simp
qed

lemma find_victim_None_order:
  assumes "range_order ps ord"
  shows "find_victim (range_entries ps ord) bullet = None \<longleftrightarrow>
           \<not> (\<exists>k p. ps k = Some p \<and> hit_by bullet p)"
  by (auto simp add: find_victim_None set_range_entries_order[OF assms])

text \<open>
  C3. A tick of a registered bullet moves it by its direction vector: whatever is
  registered under the id after the tick is the bullet at its old cell plus (DirX, DirY),
  and it is registered (and the timeline goes on) exactly if that cell is inside the world
  and holds no alive player other than the owner. If the cell is outside the world the
  bullet is removed and the timeline stops. In a run whose clock never runs backwards and
  whose ticks come after the sleep of BULLET_SPEED, a bullet id that a tick has removed is
  never registered again.
\<close>

theorem bullet_tick:
  "(\<forall>b. range_order (players gs) ord \<and> Bullets (world gs) bulletID = Some b \<longrightarrow>
      (\<forall>b'. Bullets (world (snd (moveBullet_tick gs ord bulletID now))) bulletID = Some b' \<longrightarrow>
            b' = b\<lparr>bX := bX b + DirX b, bY := bY b + DirY b\<rparr>)
      \<and> (fst (moveBullet_tick gs ord bulletID now) = Flying \<longleftrightarrow>
           Bullets (world (snd (moveBullet_tick gs ord bulletID now))) bulletID \<noteq> None)
      \<and> (fst (moveBullet_tick gs ord bulletID now) = Flying \<longleftrightarrow>
           in_world (bX b + DirX b) (bY b + DirY b)
           \<and> \<not> (\<exists>k p. players gs k = Some p \<and> hit_by (advance b) p))
      \<and> (\<not> in_world (bX b + DirX b) (bY b + DirY b) \<longrightarrow>
           fst (moveBullet_tick gs ord bulletID now) = LeftWorld
           \<and> Bullets (world (snd (moveBullet_tick gs ord bulletID now))) bulletID = None))
   \<and> (admissible t gs (Tick n now' ord' # es)
       \<and> Bullets (world gs) (''bullet_'' @ show_int n) \<noteq> None
       \<and> Bullets (world (step gs (Tick n now' ord'))) (''bullet_'' @ show_int n) = None \<longrightarrow>
         Bullets (world (run gs (Tick n now' ord' # es))) (''bullet_'' @ show_int n) = None)"
proof (rule conjI; intro allI impI)
  fix b
  assume a: "range_order (players gs) ord \<and> Bullets (world gs) bulletID = Some b"
  then have ord: "range_order (players gs) ord" and b: "Bullets (world gs) bulletID = Some b"
    by simp_all
  let ?t = "moveBullet_tick gs ord bulletID now"
  have cases: "(\<not> in_world (bX b + DirX b) (bY b + DirY b) \<and> fst ?t = LeftWorld
                 \<and> Bullets (world (snd ?t)) bulletID = None)
     \<or> (in_world (bX b + DirX b) (bY b + DirY b) \<and> (\<exists>k p. players gs k = Some p \<and> hit_by (advance b) p)
          \<and> (\<exists>v. fst ?t = Hit v) \<and> Bullets (world (snd ?t)) bulletID = None)
     \<or> (in_world (bX b + DirX b) (bY b + DirY b) \<and> \<not> (\<exists>k p. players gs k = Some p \<and> hit_by (advance b) p)
          \<and> fst ?t = Flying \<and> Bullets (world (snd ?t)) bulletID = Some (advance b))"
  proof (cases "in_world (bX b + DirX b) (bY b + DirY b)")
    case False
    with b show ?thesis by (simp add: moveBullet_tick_left)
  next
    case True
    show ?thesis
    proof (cases "find_victim (range_entries (players gs) ord) (advance b)")
      case None
      then have "\<not> (\<exists>k p. players gs k = Some p \<and> hit_by (advance b) p)"
        using find_victim_None_order[OF ord, of "advance b"] by simp
      with b True None show ?thesis
        by (simp add: moveBullet_tick_miss)
    next
      case (Some kp)
      obtain k p where kp: "kp = (k, p)" by (cases kp)
      from Some have "find_victim (range_entries (players gs) ord) (advance b) \<noteq> None" by simp
      then have "\<exists>k p. players gs k = Some p \<and> hit_by (advance b) p"
        using find_victim_None_order[OF ord, of "advance b"] by simp
      with b True Some[unfolded kp] show ?thesis
        by (simp add: moveBullet_tick_hit)
    qed
  qed
  show "(\<forall>b'. Bullets (world (snd ?t)) bulletID = Some b' \<longrightarrow>
            b' = b\<lparr>bX := bX b + DirX b, bY := bY b + DirY b\<rparr>)
      \<and> (fst ?t = Flying \<longleftrightarrow> Bullets (world (snd ?t)) bulletID \<noteq> None)
      \<and> (fst ?t = Flying \<longleftrightarrow>
           in_world (bX b + DirX b) (bY b + DirY b)
           \<and> \<not> (\<exists>k p. players gs k = Some p \<and> hit_by (advance b) p))
      \<and> (\<not> in_world (bX b + DirX b) (bY b + DirY b) \<longrightarrow>
           fst ?t = LeftWorld \<and> Bullets (world (snd ?t)) bulletID = None)"
    using cases by (auto simp add: advance_def)
next
  assume a: "admissible t gs (Tick n now' ord' # es)
       \<and> Bullets (world gs) (''bullet_'' @ show_int n) \<noteq> None
       \<and> Bullets (world (step gs (Tick n now' ord'))) (''bullet_'' @ show_int n) = None"
  then have adm: "admissible now' (step gs (Tick n now' ord')) es" and "n + BULLET_SPEED \<le> now'"
    and none: "Bullets (world (step gs (Tick n now' ord'))) (''bullet_'' @ show_int n) = None"
    by simp_all
  then have "n < now'" by (simp add: BULLET_SPEED_def Millisecond_def)
  with adm have "Bullets (world (run (step gs (Tick n now' ord')) es)) (''bullet_'' @ show_int n) = None"
    using none by (rule run_bullet_absent)
  then show "Bullets (world (run gs (Tick n now' ord' # es))) (''bullet_'' @ show_int n) = None"
    by simp
qed


lemma corner_order: "range_order (players corner) [''p1'']"
  by (auto simp add: range_order_def corner_def)

theorem bullet_tick_witness:
  "range_order (players corner) [''p1'']
   \<and> Bullets (world corner) (''bullet_'' @ show_int 1000) = Some corner_bullet
   \<and> \<not> in_world (bX corner_bullet + DirX corner_bullet) (bY corner_bullet + DirY corner_bullet)
   \<and> fst (moveBullet_tick corner [''p1''] (''bullet_'' @ show_int 1000) 200000000) = LeftWorld
   \<and> Bullets (world (snd (moveBullet_tick corner [''p1''] (''bullet_'' @ show_int 1000) 200000000)))
         (''bullet_'' @ show_int 1000) = None
   \<and> admissible 0 corner [Tick 1000 200000000 [''p1''], Shoot ''p1'' ''right'' 600000000 600000001 600000002]
   \<and> Bullets (world (step corner (Tick 1000 200000000 [''p1'']))) (''bullet_'' @ show_int 1000) = None
   \<and> Bullets (world (run corner [Tick 1000 200000000 [''p1''],
                                   Shoot ''p1'' ''right'' 600000000 600000001 600000002]))
         (''bullet_'' @ show_int 1000) = None
   \<and> map_option (\<lambda>b. (bX b, bY b))
         (Bullets (world (run corner [Tick 1000 200000000 [''p1''],
                                      Shoot ''p1'' ''right'' 600000000 600000001 600000002]))
           (''bullet_'' @ show_int 600000001)) = Some (0, 0)
   \<and> fst (moveBullet_tick (run corner [Tick 1000 200000000 [''p1''],
                                       Shoot ''p1'' ''right'' 600000000 600000001 600000002])
              [''p1''] (''bullet_'' @ show_int 600000001) 700000002) = Flying
   \<and> map_option (\<lambda>b. (bX b, bY b))
         (Bullets (world (snd (moveBullet_tick (run corner [Tick 1000 200000000 [''p1''],
                                       Shoot ''p1'' ''right'' 600000000 600000001 600000002])
              [''p1''] (''bullet_'' @ show_int 600000001) 700000002)))
           (''bullet_'' @ show_int 600000001)) = Some (1, 0)"
proof -
  define bid where "bid = ''bullet_'' @ show_int 1000"
  define bid2 where "bid2 = ''bullet_'' @ show_int 600000001"
  let ?es = "[Tick 1000 200000000 [''p1''], Shoot ''p1'' ''right'' 600000000 600000001 600000002]"
  define s2 where "s2 = run corner ?es"
  let ?p = "mkPlayer ''p1'' ''A'' 0 0 False False"
  let ?b2 = "\<lparr>bID = bid2, bX = 0, bY = 0, DirX = 1, DirY = 0, OwnerID = ''p1'', bCharacter = ''*''\<rparr>"
  have b: "Bullets (world corner) bid = Some corner_bullet" by (simp add: corner_def bid_def)
  have out: "\<not> in_world (bX corner_bullet + DirX corner_bullet) (bY corner_bullet + DirY corner_bullet)"
    by (simp add: corner_bullet_def in_world_def)
  note th = bullet_tick[of corner "[''p1'']" bid 200000000 0 1000 200000000 "[''p1'']"
                "[Shoot ''p1'' ''right'' 600000000 600000001 600000002]"]
  from conjunct1[OF th] corner_order b out
  have c1: "fst (moveBullet_tick corner [''p1''] bid 200000000) = LeftWorld"
    and c2: "Bullets (world (snd (moveBullet_tick corner [''p1''] bid 200000000))) bid = None"
    by blast+
  have adm: "admissible 0 corner ?es"
    by (simp add: corner_order BULLET_SPEED_def Millisecond_def)
  have st: "Bullets (world (step corner (Tick 1000 200000000 [''p1'']))) bid = None"
    using c2 by (simp add: bid_def)
  from conjunct2[OF th] adm b st
  have c3: "Bullets (world (run corner ?es)) bid = None" by (simp add: bid_def)
  have s1: "step corner (Tick 1000 200000000 [''p1'']) =
      corner\<lparr>world := (world corner)\<lparr>Bullets := (Bullets (world corner))(bid := None)\<rparr>\<rparr>"
    using moveBullet_tick_left[OF b out, of "[''p1'']" 200000000] by (simp add: bid_def)
  have p1: "players corner ''p1'' = Some ?p" by (simp add: corner_def)
  have cool: "\<not> Sub 600000000 (LastShot ?p) < SHOOT_COOLDOWN"
    by (simp add: mkPlayer_def Sub_def zeroTime_def Second_def Millisecond_def SHOOT_COOLDOWN_def)
  have fl: "\<not> Dead ?p" "\<not> IsSpectator ?p" "X ?p = 0" "Y ?p = 0" "ID ?p = ''p1''"
    by (simp_all add: mkPlayer_def)
  have s2_eq: "s2 = corner\<lparr>world := (world corner)\<lparr>Bullets := (Bullets (world corner))(bid := None, bid2 \<mapsto> ?b2)\<rparr>,
                         players := (players corner)(''p1'' \<mapsto> ?p\<lparr>LastShot := 600000002\<rparr>)\<rparr>"
    unfolding s2_def run.simps s1
    by (simp add: shootBullet_def p1 cool fl direction_vector_def Let_def bid2_def del: show_int_def)
  have ord2: "range_order (players s2) [''p1'']"
    by (auto simp add: s2_eq range_order_def corner_def)
  have b2: "Bullets (world s2) bid2 = Some ?b2" by (simp add: s2_eq)
  have c4: "map_option (\<lambda>b. (bX b, bY b)) (Bullets (world s2) bid2) = Some (0, 0)"
    by (simp add: b2)
  have inw: "in_world (bX ?b2 + DirX ?b2) (bY ?b2 + DirY ?b2)"
    by (simp add: in_world_def WORLD_WIDTH_def WORLD_HEIGHT_def)
  have nohit: "\<not> (\<exists>k p. players s2 k = Some p \<and> hit_by (advance ?b2) p)"
    by (auto simp add: s2_eq corner_def hit_by_def fl split: if_splits)
  note th2 = conjunct1[OF bullet_tick[of s2 "[''p1'']" bid2 700000002 0 0 0 "[]" "[]"]]
  from th2 ord2 b2 inw nohit
  have c5: "fst (moveBullet_tick s2 [''p1''] bid2 700000002) = Flying" by blast
  from th2 ord2 b2 c5
  obtain b' where "Bullets (world (snd (moveBullet_tick s2 [''p1''] bid2 700000002))) bid2 = Some b'"
    by blast
  moreover from this th2 ord2 b2 have "b' = ?b2\<lparr>bX := bX ?b2 + DirX ?b2, bY := bY ?b2 + DirY ?b2\<rparr>"
    by blast
  ultimately have c6: "map_option (\<lambda>b. (bX b, bY b))
      (Bullets (world (snd (moveBullet_tick s2 [''p1''] bid2 700000002))) bid2) = Some (1, 0)"
    by simp
  from corner_order b out c1 c2 adm st c3 c4 c5 c6
  show ?thesis unfolding s2_def bid_def bid2_def by (intro conjI)
qed

section \<open>Every state of a run is well formed\<close>

lemma go_rem_range: "0 \<le> a \<Longrightarrow> 0 < b \<Longrightarrow> 0 \<le> go_rem a b \<and> go_rem a b < b"
  by (simp add: go_rem_nonneg)

lemma wf_players_lookup:
  "wf_players ps \<Longrightarrow> ps k = Some p \<Longrightarrow> ID p = k \<and> in_world (X p) (Y p) \<and> length (Character p) = 1"
  by (simp add: wf_players_def)

lemma wf_credit_kill: "wf_players ps \<Longrightarrow> wf_players (credit_kill ps owner)"
  by (auto simp add: credit_kill_def wf_players_def split: option.splits)

lemma new_player_simps [simp]:
  "X (new_player joinData t_id t_seen) = 75" "Y (new_player joinData t_id t_seen) = 20"
  "Character (new_player joinData t_id t_seen) = jCharacter joinData"
  "Dead (new_player joinData t_id t_seen) = False"
  "IsSpectator (new_player joinData t_id t_seen) = jSpectator joinData"
  "LastShot (new_player joinData t_id t_seen) = zeroTime"
  "Kills (new_player joinData t_id t_seen) = 0" "Deaths (new_player joinData t_id t_seen) = 0"
  by (simp_all add: new_player_def world_centre)

lemma centre_in_world: "in_world 75 20"
  by (simp add: in_world_def WORLD_WIDTH_def WORLD_HEIGHT_def)

lemma step_wf:
  assumes ok: "event_ok t gs e" and t: "0 \<le> t" and wf: "wf_players (players gs)"
  shows "wf_players (players (step gs e))"
proof (cases e)
  case (Join conn joinData t_id t_seen)
  from handle_join_shape[of gs conn None joinData t_id t_seen] show ?thesis
  proof
    assume "snd (handle_join gs conn None joinData t_id t_seen) = gs"
    with wf Join show ?thesis by simp
  next
    assume "length (jCharacter joinData) = 1 \<and>
      snd (handle_join gs conn None joinData t_id t_seen) =
        gs\<lparr>clients := (clients gs)(conn \<mapsto> ID (new_player joinData t_id t_seen)),
           players := (players gs)(ID (new_player joinData t_id t_seen) \<mapsto> new_player joinData t_id t_seen)\<rparr>"
    with wf Join show ?thesis by (simp add: wf_players_upd centre_in_world)
  qed
next
  case (Move pid direction now ord)
  from movePlayer_shape[of gs ord pid direction now] show ?thesis
  proof (elim disjE exE conjE)
    assume "movePlayer gs ord pid direction now = (False, gs)"
    with wf Move show ?thesis by simp
  next
    fix p x y
    assume p: "players gs pid = Some p" and mt: "move_target p direction = Some (x, y)"
      and r: "movePlayer gs ord pid direction now =
           (True, gs\<lparr>players := (players gs)(pid \<mapsto> p\<lparr>X := x, Y := y, LastSeen := now\<rparr>)\<rparr>)"
    from wf p have w: "ID p = pid" "in_world (X p) (Y p)" "length (Character p) = 1"
      by (simp_all add: wf_players_lookup)
    from mt move_target_in_world[OF w(2), of direction] obtain v where "clamped_cell p v = (x, y)"
      by auto
    with clamped_cell_in_world[of p v] have "in_world x y" by simp
    with wf w r Move show ?thesis by (simp add: wf_players_upd)
  qed
next
  case (Shoot pid direction t_since t_id t_stamp)
  from shootBullet_shape[of gs pid direction t_since t_id t_stamp] show ?thesis
  proof (elim disjE exE conjE)
    assume "shootBullet gs pid direction t_since t_id t_stamp = (False, gs)"
    with wf Shoot show ?thesis by simp
  next
    fix p v
    assume p: "players gs pid = Some p"
      and r: "shootBullet gs pid direction t_since t_id t_stamp =
           (True, gs\<lparr>world := (world gs)\<lparr>Bullets := (Bullets (world gs))(''bullet_'' @ show_int t_id \<mapsto>
                         \<lparr>bID = ''bullet_'' @ show_int t_id, bX = X p, bY = Y p, DirX = fst v, DirY = snd v,
                          OwnerID = pid, bCharacter = ''*''\<rparr>)\<rparr>,
                    players := (players gs)(pid \<mapsto> p\<lparr>LastShot := t_stamp\<rparr>)\<rparr>)"
    from wf p have w: "ID p = pid" "in_world (X p) (Y p)" "length (Character p) = 1"
      by (simp_all add: wf_players_lookup)
    with wf r Shoot show ?thesis by (simp add: wf_players_upd del: append.simps)
  qed
next
  case (Tick n now ord)
  define bid where "bid = ''bullet_'' @ show_int n"
  have st: "step gs e = snd (moveBullet_tick gs ord bid now)" by (simp add: Tick bid_def)
  from moveBullet_tick_players[of gs ord bid now] show ?thesis
  proof (elim disjE exE conjE)
    assume "players (snd (moveBullet_tick gs ord bid now)) = players gs"
    with wf st show ?thesis by simp
  next
    fix b k p
    assume p: "players gs k = Some p"
      and r: "players (snd (moveBullet_tick gs ord bid now)) =
            credit_kill ((players gs)(k \<mapsto> killed p now)) (OwnerID b)"
    from wf p have w: "ID p = k" "in_world (X p) (Y p)" "length (Character p) = 1"
      by (simp_all add: wf_players_lookup)
    with wf have "wf_players ((players gs)(k \<mapsto> killed p now))"
      by (simp add: wf_players_upd killed_def)
    then show ?thesis unfolding st r by (rule wf_credit_kill)
  qed
next
  case (Respawn pid clock ord)
  from respawnPlayer_shape[of gs ord pid clock] show ?thesis
  proof (elim disjE exE conjE)
    assume "respawnPlayer gs ord pid clock = gs"
    with wf Respawn show ?thesis by simp
  next
    fix p x y
    assume p: "players gs pid = Some p"
      and a: "respawn_attempts (range_entries (players gs) ord) clock 0 = Some (x, y)"
      and r: "respawnPlayer gs ord pid clock =
               gs\<lparr>players := (players gs)(pid \<mapsto> p\<lparr>X := x, Y := y, Dead := False\<rparr>)\<rparr>"
    from wf p have w: "ID p = pid" "in_world (X p) (Y p)" "length (Character p) = 1"
      by (simp_all add: wf_players_lookup)
    from respawn_attempts_Some[OF a] obtain i where i: "i < 50"
      "x = go_rem (fst (clock i)) WORLD_WIDTH" "y = go_rem (snd (clock i)) WORLD_HEIGHT"
      by auto
    from ok Respawn i(1) have "t \<le> fst (clock i)" "t \<le> snd (clock i)"
      by (simp_all add: list_all_iff)
    with t have "0 \<le> fst (clock i)" "0 \<le> snd (clock i)" by simp_all
    with i have "in_world x y"
      by (simp add: in_world_def go_rem_range WORLD_WIDTH_def WORLD_HEIGHT_def)
    with wf w r Respawn show ?thesis by (simp add: wf_players_upd)
  next
    fix p
    assume p: "players gs pid = Some p"
      and r: "respawnPlayer gs ord pid clock =
               gs\<lparr>players := (players gs)(pid \<mapsto> p\<lparr>X := 75, Y := 20, Dead := False\<rparr>)\<rparr>"
    from wf p have w: "ID p = pid" "in_world (X p) (Y p)" "length (Character p) = 1"
      by (simp_all add: wf_players_lookup)
    with wf r Respawn show ?thesis by (simp add: wf_players_upd centre_in_world)
  qed
next
  case (Leave conn)
  with removeClient_shape[of gs conn] wf show ?thesis
    by (auto simp add: wf_players_delete)
qed

lemma run_wf:
  "admissible t gs es \<Longrightarrow> 0 \<le> t \<Longrightarrow> wf_players (players gs) \<Longrightarrow> wf_players (players (run gs es))"
proof (induction es arbitrary: t gs)
  case Nil
  then show ?case by simp
next
  case (Cons e es)
  from Cons.prems have ok: "event_ok t gs e" and adm: "admissible (event_end t e) (step gs e) es"
    by simp_all
  from ok Cons.prems(2) have "0 \<le> event_end t e" using event_end_ge by fastforce
  moreover from ok Cons.prems(2,3) have "wf_players (players (step gs e))" by (rule step_wf)
  ultimately show ?case using Cons.IH[OF adm] by simp
qed

lemma wf_gameServer: "wf_players (players gameServer)"
  by (simp add: gameServer_def wf_players_empty)

section \<open>Occupancy of cells\<close>

lemma no_overlap_upd:
  assumes "no_overlap ps"
    and "Dead p \<or> IsSpectator p \<or>
         (\<forall>k' q. k' \<noteq> k \<and> ps k' = Some q \<and> \<not> Dead q \<and> \<not> IsSpectator q \<longrightarrow> (X q, Y q) \<noteq> (X p, Y p))"
  shows "no_overlap (ps(k \<mapsto> p))"
  unfolding no_overlap_def
proof (intro allI impI, elim conjE)
  fix a b pa pb
  assume a: "(ps(k \<mapsto> p)) a = Some pa" and b: "(ps(k \<mapsto> p)) b = Some pb" and ne: "a \<noteq> b"
    and al: "\<not> Dead pa" "\<not> IsSpectator pa" "\<not> Dead pb" "\<not> IsSpectator pb"
  consider "a = k" "b \<noteq> k" | "a \<noteq> k" "b = k" | "a \<noteq> k" "b \<noteq> k"
    using ne by blast
  then show "(X pa, Y pa) \<noteq> (X pb, Y pb)"
  proof cases
    case 1
    with a b have "pa = p" "ps b = Some pb" by simp_all
    with assms(2) al 1 show ?thesis by metis
  next
    case 2
    with a b have "pb = p" "ps a = Some pa" by simp_all
    with assms(2) al 2 show ?thesis by metis
  next
    case 3
    with a b have "ps a = Some pa" "ps b = Some pb" by simp_all
    with assms(1) ne al show ?thesis unfolding no_overlap_def by blast
  qed
qed

lemma no_overlap_delete: "no_overlap ps \<Longrightarrow> no_overlap (ps(k := None))"
  unfolding no_overlap_def by (auto split: if_splits)

lemma no_overlap_stay:
  assumes "no_overlap ps" and "ps k = Some q"
    and "Dead p \<or> IsSpectator p \<or> (\<not> Dead q \<and> \<not> IsSpectator q \<and> X p = X q \<and> Y p = Y q)"
  shows "no_overlap (ps(k \<mapsto> p))"
proof (rule no_overlap_upd[OF assms(1)])
  from assms(3) show "Dead p \<or> IsSpectator p \<or>
         (\<forall>k' q. k' \<noteq> k \<and> ps k' = Some q \<and> \<not> Dead q \<and> \<not> IsSpectator q \<longrightarrow> (X q, Y q) \<noteq> (X p, Y p))"
  proof (elim disjE conjE)
    assume a: "\<not> Dead q" "\<not> IsSpectator q" "X p = X q" "Y p = Y q"
    have "\<forall>k' q'. k' \<noteq> k \<and> ps k' = Some q' \<and> \<not> Dead q' \<and> \<not> IsSpectator q' \<longrightarrow> (X q', Y q') \<noteq> (X p, Y p)"
    proof (intro allI impI)
      fix k' q' assume b: "k' \<noteq> k \<and> ps k' = Some q' \<and> \<not> Dead q' \<and> \<not> IsSpectator q'"
      with assms(1,2) a have "(X q', Y q') \<noteq> (X q, Y q)"
        unfolding no_overlap_def by blast
      with a show "(X q', Y q') \<noteq> (X p, Y p)" by simp
    qed
    then show ?thesis by blast
  qed simp_all
qed

lemma no_overlap_credit_kill: "no_overlap ps \<Longrightarrow> no_overlap (credit_kill ps owner)"
proof (cases "ps owner")
  case None
  assume "no_overlap ps"
  with None show ?thesis by (simp add: credit_kill_def)
next
  case (Some s)
  assume n: "no_overlap ps"
  have "no_overlap (ps(owner \<mapsto> s\<lparr>Kills := Kills s + 1\<rparr>))"
    using n Some by (rule no_overlap_stay) auto
  with Some show ?thesis by (simp add: credit_kill_def)
qed


lemma step_no_overlap:
  assumes ok: "event_ok t gs e" and g: "spawn_guard gs e"
    and wf: "wf_players (players gs)" and n: "no_overlap (players gs)"
  shows "no_overlap (players (step gs e))"
proof (cases e)
  case (Join conn joinData t_id t_seen)
  let ?np = "new_player joinData t_id t_seen"
  from handle_join_shape[of gs conn None joinData t_id t_seen] show ?thesis
  proof
    assume "snd (handle_join gs conn None joinData t_id t_seen) = gs"
    with n Join show ?thesis by simp
  next
    assume a: "length (jCharacter joinData) = 1 \<and>
      snd (handle_join gs conn None joinData t_id t_seen) =
        gs\<lparr>clients := (clients gs)(conn \<mapsto> ID ?np), players := (players gs)(ID ?np \<mapsto> ?np)\<rparr>"
    with g Join have "jSpectator joinData \<or> centre_free (players gs) (ID ?np)" by simp
    then have "Dead ?np \<or> IsSpectator ?np \<or>
         (\<forall>k' q. k' \<noteq> ID ?np \<and> players gs k' = Some q \<and> \<not> Dead q \<and> \<not> IsSpectator q
            \<longrightarrow> (X q, Y q) \<noteq> (X ?np, Y ?np))"
      by (auto simp add: centre_free_def)
    with n have "no_overlap ((players gs)(ID ?np \<mapsto> ?np))" by (rule no_overlap_upd)
    with a Join show ?thesis by simp
  qed
next
  case (Move pid direction now ord)
  from ok Move have ord: "range_order (players gs) ord" by simp
  from movePlayer_shape[of gs ord pid direction now] show ?thesis
  proof (elim disjE exE conjE)
    assume "movePlayer gs ord pid direction now = (False, gs)"
    with n Move show ?thesis by simp
  next
    fix p x y
    assume p: "players gs pid = Some p"
      and nb: "\<not> cell_blocked (range_entries (players gs) ord) pid x y"
      and r: "movePlayer gs ord pid direction now =
           (True, gs\<lparr>players := (players gs)(pid \<mapsto> p\<lparr>X := x, Y := y, LastSeen := now\<rparr>)\<rparr>)"
    from nb have no: "\<not> other_alive_at (players gs) pid (x, y)"
      by (simp add: cell_blocked_other_alive_at[OF ord])
    have "\<forall>k' q. k' \<noteq> pid \<and> players gs k' = Some q \<and> \<not> Dead q \<and> \<not> IsSpectator q
            \<longrightarrow> (X q, Y q) \<noteq> (x, y)"
    proof (intro allI impI)
      fix k' q assume a: "k' \<noteq> pid \<and> players gs k' = Some q \<and> \<not> Dead q \<and> \<not> IsSpectator q"
      with wf have "ID q = k'" by (simp add: wf_players_ID)
      with a no show "(X q, Y q) \<noteq> (x, y)" unfolding other_alive_at_def by blast
    qed
    with n have "no_overlap ((players gs)(pid \<mapsto> p\<lparr>X := x, Y := y, LastSeen := now\<rparr>))"
      by (intro no_overlap_upd) auto
    with r Move show ?thesis by simp
  qed
next
  case (Shoot pid direction t_since t_id t_stamp)
  from shootBullet_shape[of gs pid direction t_since t_id t_stamp] show ?thesis
  proof (elim disjE exE conjE)
    assume "shootBullet gs pid direction t_since t_id t_stamp = (False, gs)"
    with n Shoot show ?thesis by simp
  next
    fix p v
    assume p: "players gs pid = Some p"
      and r: "shootBullet gs pid direction t_since t_id t_stamp =
           (True, gs\<lparr>world := (world gs)\<lparr>Bullets := (Bullets (world gs))(''bullet_'' @ show_int t_id \<mapsto>
                         \<lparr>bID = ''bullet_'' @ show_int t_id, bX = X p, bY = Y p, DirX = fst v, DirY = snd v,
                          OwnerID = pid, bCharacter = ''*''\<rparr>)\<rparr>,
                    players := (players gs)(pid \<mapsto> p\<lparr>LastShot := t_stamp\<rparr>)\<rparr>)"
    have "no_overlap ((players gs)(pid \<mapsto> p\<lparr>LastShot := t_stamp\<rparr>))"
      using n p by (rule no_overlap_stay) auto
    with r Shoot show ?thesis by (simp del: append.simps)
  qed
next
  case (Tick m now ord)
  define bid where "bid = ''bullet_'' @ show_int m"
  have st: "step gs e = snd (moveBullet_tick gs ord bid now)" by (simp add: Tick bid_def)
  from moveBullet_tick_players[of gs ord bid now] show ?thesis
  proof (elim disjE exE conjE)
    assume "players (snd (moveBullet_tick gs ord bid now)) = players gs"
    with n st show ?thesis by simp
  next
    fix b k p
    assume p: "players gs k = Some p"
      and r: "players (snd (moveBullet_tick gs ord bid now)) =
            credit_kill ((players gs)(k \<mapsto> killed p now)) (OwnerID b)"
    have "no_overlap ((players gs)(k \<mapsto> killed p now))"
      using n p by (rule no_overlap_stay) (simp add: killed_def)
    then show ?thesis unfolding st r by (rule no_overlap_credit_kill)
  qed
next
  case (Respawn pid clock ord)
  from ok Respawn have ord: "range_order (players gs) ord" by simp
  from respawnPlayer_shape[of gs ord pid clock] show ?thesis
  proof (elim disjE exE conjE)
    assume "respawnPlayer gs ord pid clock = gs"
    with n Respawn show ?thesis by simp
  next
    fix p x y
    assume p: "players gs pid = Some p"
      and a: "respawn_attempts (range_entries (players gs) ord) clock 0 = Some (x, y)"
      and r: "respawnPlayer gs ord pid clock =
               gs\<lparr>players := (players gs)(pid \<mapsto> p\<lparr>X := x, Y := y, Dead := False\<rparr>)\<rparr>"
    from respawn_attempts_Some[OF a] have "\<not> cell_occupied (range_entries (players gs) ord) x y"
      by simp
    then have "\<forall>k' q. players gs k' = Some q \<and> \<not> Dead q \<longrightarrow> (X q, Y q) \<noteq> (x, y)"
      by (auto simp add: cell_occupied_iff set_range_entries_order[OF ord])
    with n have "no_overlap ((players gs)(pid \<mapsto> p\<lparr>X := x, Y := y, Dead := False\<rparr>))"
      by (intro no_overlap_upd) auto
    with r Respawn show ?thesis by simp
  next
    fix p
    assume p: "players gs pid = Some p"
      and a: "respawn_attempts (range_entries (players gs) ord) clock 0 = None" and d: "Dead p"
      and r: "respawnPlayer gs ord pid clock =
               gs\<lparr>players := (players gs)(pid \<mapsto> p\<lparr>X := 75, Y := 20, Dead := False\<rparr>)\<rparr>"
    from g Respawn p a d have "IsSpectator p \<or> centre_free (players gs) pid" by simp
    then have "Dead (p\<lparr>X := 75, Y := 20, Dead := False\<rparr>) \<or> IsSpectator (p\<lparr>X := 75, Y := 20, Dead := False\<rparr>) \<or>
         (\<forall>k' q. k' \<noteq> pid \<and> players gs k' = Some q \<and> \<not> Dead q \<and> \<not> IsSpectator q
            \<longrightarrow> (X q, Y q) \<noteq> (X (p\<lparr>X := 75, Y := 20, Dead := False\<rparr>), Y (p\<lparr>X := 75, Y := 20, Dead := False\<rparr>)))"
      by (auto simp add: centre_free_def)
    with n have "no_overlap ((players gs)(pid \<mapsto> p\<lparr>X := 75, Y := 20, Dead := False\<rparr>))"
      by (rule no_overlap_upd)
    with r Respawn show ?thesis by simp
  qed
next
  case (Leave conn)
  with removeClient_shape[of gs conn] n show ?thesis
    by (auto simp add: no_overlap_delete)
qed

lemma new_player_ids:
  "ID (new_player alice_request 5 6) = ''p5''" "ID (new_player bob_request 7 8) = ''p7''"
  "ID (new_player bob_request 17 18) = ''p17''"
  by (simp_all add: new_player_def go_rem_nonneg show_int_def show_nat_step show_nat_digit digit_char_def)

lemma request_glyphs:
  "length (jCharacter alice_request) = 1" "length (jCharacter bob_request) = 1"
  "\<not> jSpectator alice_request" "\<not> jSpectator bob_request"
  by (simp_all add: alice_request_def bob_request_def)

lemma join_alice:
  "step gameServer (Join 0 alice_request 5 6) =
     gameServer\<lparr>clients := [0 \<mapsto> ''p5''], players := [''p5'' \<mapsto> new_player alice_request 5 6]\<rparr>"
  by (simp add: handle_join_def request_glyphs Let_def addClient_def new_player_ids gameServer_def)

text \<open>
  C1, as stated, fails: two players join one after the other, with different ids, and
  both stand alive on the centre cell (75, 20).
\<close>

theorem two_joins_overlap:
  "admissible 0 gameServer [Join 0 alice_request 5 6, Join 1 bob_request 7 8]
   \<and> map_option (\<lambda>p. (X p, Y p, Dead p, IsSpectator p))
        (players (run gameServer [Join 0 alice_request 5 6, Join 1 bob_request 7 8]) ''p5'')
       = Some (75, 20, False, False)
   \<and> map_option (\<lambda>p. (X p, Y p, Dead p, IsSpectator p))
        (players (run gameServer [Join 0 alice_request 5 6, Join 1 bob_request 7 8]) ''p7'')
       = Some (75, 20, False, False)
   \<and> \<not> no_overlap (players (run gameServer [Join 0 alice_request 5 6, Join 1 bob_request 7 8]))"
proof -
  define s where "s = run gameServer [Join 0 alice_request 5 6, Join 1 bob_request 7 8]"
  have ps: "players s = [''p5'' \<mapsto> new_player alice_request 5 6, ''p7'' \<mapsto> new_player bob_request 7 8]"
    unfolding s_def run.simps join_alice
    by (simp add: handle_join_def request_glyphs Let_def addClient_def new_player_ids)
  have a: "players s ''p5'' = Some (new_player alice_request 5 6)"
    and b: "players s ''p7'' = Some (new_player bob_request 7 8)"
    by (simp_all add: ps)
  have "\<not> no_overlap (players s)"
  proof
    let ?a = "new_player alice_request 5 6" and ?b = "new_player bob_request 7 8"
    assume "no_overlap (players s)"
    then have "players s ''p5'' = Some ?a \<and> players s ''p7'' = Some ?b \<and> ''p5'' \<noteq> ''p7''
        \<and> \<not> Dead ?a \<and> \<not> IsSpectator ?a \<and> \<not> Dead ?b \<and> \<not> IsSpectator ?b
        \<longrightarrow> (X ?a, Y ?a) \<noteq> (X ?b, Y ?b)"
      unfolding no_overlap_def by blast
    with a b show False by (simp add: request_glyphs)
  qed
  moreover have "admissible 0 gameServer [Join 0 alice_request 5 6, Join 1 bob_request 7 8]"
    by simp
  ultimately show ?thesis unfolding s_def[symmetric] by (simp add: a b request_glyphs)
qed

text \<open>
  C1, amended. From a well-formed state without overlap, every run whose joins of
  non-spectators and whose fallback respawns of non-spectators find the world centre free
  of other alive non-spectators ends in a state without overlap: moves, shots, ticks,
  leaves and respawns on a free random cell never put two alive non-spectators on one
  cell. A join and the respawn fallback put the player on the centre without looking.
\<close>

theorem guarded_run_no_overlap:
  "admissible t gs es \<Longrightarrow> 0 \<le> t \<Longrightarrow> guarded gs es \<Longrightarrow> wf_players (players gs) \<Longrightarrow>
   no_overlap (players gs) \<Longrightarrow> no_overlap (players (run gs es))"
proof (induction es arbitrary: t gs)
  case Nil
  then show ?case by simp
next
  case (Cons e es)
  from Cons.prems have ok: "event_ok t gs e" and adm: "admissible (event_end t e) (step gs e) es"
    and g: "spawn_guard gs e" and gs: "guarded (step gs e) es"
    by simp_all
  from ok Cons.prems(2) have "0 \<le> event_end t e" using event_end_ge by fastforce
  moreover from ok Cons.prems(2,4) have "wf_players (players (step gs e))" by (rule step_wf)
  moreover from ok g Cons.prems(4,5) have "no_overlap (players (step gs e))"
    by (rule step_no_overlap)
  ultimately show ?case using Cons.IH[OF adm _ gs] by simp
qed


lemma no_overlap_empty: "no_overlap Map.empty"
  by (simp add: no_overlap_def)

theorem guarded_run_no_overlap_witness:
  "admissible 0 gameServer
      [Join 0 alice_request 5 6, Move ''p5'' ''left'' 10 [''p5''], Join 1 bob_request 17 18]
   \<and> (0::int) \<le> 0
   \<and> guarded gameServer
      [Join 0 alice_request 5 6, Move ''p5'' ''left'' 10 [''p5''], Join 1 bob_request 17 18]
   \<and> wf_players (players gameServer)
   \<and> no_overlap (players gameServer)
   \<and> map_option (\<lambda>p. (X p, Y p, Dead p, IsSpectator p))
        (players (run gameServer
           [Join 0 alice_request 5 6, Move ''p5'' ''left'' 10 [''p5''], Join 1 bob_request 17 18]) ''p5'')
       = Some (74, 20, False, False)
   \<and> map_option (\<lambda>p. (X p, Y p, Dead p, IsSpectator p))
        (players (run gameServer
           [Join 0 alice_request 5 6, Move ''p5'' ''left'' 10 [''p5''], Join 1 bob_request 17 18]) ''p17'')
       = Some (75, 20, False, False)
   \<and> no_overlap (players (run gameServer
        [Join 0 alice_request 5 6, Move ''p5'' ''left'' 10 [''p5''], Join 1 bob_request 17 18]))"
proof -
  let ?a = "new_player alice_request 5 6"
  let ?b = "new_player bob_request 17 18"
  let ?es = "[Join 0 alice_request 5 6, Move ''p5'' ''left'' 10 [''p5''], Join 1 bob_request 17 18]"
  define s1 where "s1 = step gameServer (Join 0 alice_request 5 6)"
  define s2 where "s2 = step s1 (Move ''p5'' ''left'' 10 [''p5''])"
  have ps1: "players s1 = [''p5'' \<mapsto> ?a]" unfolding s1_def join_alice by simp
  have ord1: "range_order (players s1) [''p5'']" by (auto simp add: ps1 range_order_def)
  have wf1: "wf_players (players s1)"
    unfolding ps1
    by (simp add: wf_players_upd wf_players_empty new_player_ids centre_in_world request_glyphs)
  have na: "\<not> other_alive_at (players s1) ''p5'' (74, 20)"
    by (auto simp add: other_alive_at_def ps1 new_player_ids split: if_splits)
  have cc: "clamped_cell ?a (- 1, 0) = (74, 20)"
    by (simp add: clamped_cell_def WORLD_WIDTH_def WORLD_HEIGHT_def)
  have mv: "movePlayer s1 [''p5''] ''p5'' ''left'' 10 =
      (True, s1\<lparr>players := (players s1)(''p5'' \<mapsto> ?a\<lparr>X := 74, Y := 20, LastSeen := 10\<rparr>)\<rparr>)"
    using na by (simp add: movePlayer_decision[OF ord1 wf1] ps1 direction_vector_def cc request_glyphs)
  have ps2: "players s2 = [''p5'' \<mapsto> ?a\<lparr>X := 74, Y := 20, LastSeen := 10\<rparr>]"
    by (simp add: s2_def mv ps1)
  have cf: "centre_free (players s2) ''p17''"
    by (auto simp add: centre_free_def ps2 split: if_splits)
  have ps3: "players (step s2 (Join 1 bob_request 17 18)) =
      [''p5'' \<mapsto> ?a\<lparr>X := 74, Y := 20, LastSeen := 10\<rparr>, ''p17'' \<mapsto> ?b]"
    by (simp add: handle_join_def request_glyphs Let_def addClient_def new_player_ids ps2)
  have r: "run gameServer ?es = step s2 (Join 1 bob_request 17 18)"
    by (simp add: s1_def s2_def)
  have adm: "admissible 0 gameServer ?es"
    using ord1 by (simp add: s1_def[symmetric] del: step.simps)
  have g0: "spawn_guard gameServer (Join 0 alice_request 5 6)"
    by (simp add: centre_free_def gameServer_def)
  have g2: "spawn_guard s2 (Join 1 bob_request 17 18)"
    using cf by (simp add: new_player_ids)
  have gd: "guarded gameServer ?es"
    unfolding guarded.simps s1_def[symmetric] s2_def[symmetric] using g0 g2 by simp
  have c1: "map_option (\<lambda>p. (X p, Y p, Dead p, IsSpectator p)) (players (run gameServer ?es) ''p5'')
       = Some (74, 20, False, False)"
    unfolding r ps3 by (simp add: request_glyphs)
  have c2: "map_option (\<lambda>p. (X p, Y p, Dead p, IsSpectator p)) (players (run gameServer ?es) ''p17'')
       = Some (75, 20, False, False)"
    unfolding r ps3 by (simp add: request_glyphs)
  have wf0: "wf_players (players gameServer)" by (rule wf_gameServer)
  have no0: "no_overlap (players gameServer)" by (simp add: gameServer_def no_overlap_empty)
  have c3: "no_overlap (players (run gameServer ?es))"
    using adm _ gd wf0 no0 by (rule guarded_run_no_overlap) simp
  from adm gd wf0 no0 c1 c2 c3 show ?thesis by simp
qed

lemma fresh_player_may_shoot:
  "0 \<le> t \<Longrightarrow> \<not> Sub t zeroTime < SHOOT_COOLDOWN"
  by (simp add: Sub_def zeroTime_def Second_def Millisecond_def SHOOT_COOLDOWN_def)

lemma join_bob_again:
  "ID (new_player bob_request 10005 10006) = ''p5''"
  by (simp add: new_player_bob)

text \<open>
  C5 fails on a reachable run. Alice joins and is registered as p5; her connection shoots;
  Bob joins 10000 ns after her and is registered as p5 too, so his fresh Player, whose
  LastShot is unset, takes the place of hers in the map; her connection, still bound to
  p5, shoots again 9998 ns after its first shot, and the shot succeeds.
\<close>

theorem cooldown_reset_by_join:
  "admissible 0 gameServer
      [Join 0 alice_request 5 6, Shoot ''p5'' ''right'' 7 8 9,
       Join 1 bob_request 10005 10006, Shoot ''p5'' ''up'' 10007 10008 10009]
   \<and> clients (run gameServer [Join 0 alice_request 5 6]) 0 = Some ''p5''
   \<and> fst (shootBullet (run gameServer [Join 0 alice_request 5 6]) ''p5'' ''right'' 7 8 9)
   \<and> map_option LastShot
        (players (run gameServer [Join 0 alice_request 5 6, Shoot ''p5'' ''right'' 7 8 9]) ''p5'')
       = Some 9
   \<and> clients (run gameServer [Join 0 alice_request 5 6, Shoot ''p5'' ''right'' 7 8 9,
                                Join 1 bob_request 10005 10006]) 0 = Some ''p5''
   \<and> fst (shootBullet (run gameServer [Join 0 alice_request 5 6, Shoot ''p5'' ''right'' 7 8 9,
                                        Join 1 bob_request 10005 10006])
             ''p5'' ''up'' 10007 10008 10009)
   \<and> Sub 10007 9 < SHOOT_COOLDOWN"
proof -
  define s1 where "s1 = run gameServer [Join 0 alice_request 5 6]"
  define s2 where "s2 = run gameServer [Join 0 alice_request 5 6, Shoot ''p5'' ''right'' 7 8 9]"
  define s3 where "s3 = run gameServer [Join 0 alice_request 5 6, Shoot ''p5'' ''right'' 7 8 9,
                                        Join 1 bob_request 10005 10006]"
  have s1: "s1 = gameServer\<lparr>clients := [0 \<mapsto> ''p5''], players := [''p5'' \<mapsto> new_player alice_request 5 6]\<rparr>"
    unfolding s1_def run.simps by (rule join_alice)
  have p1: "players s1 ''p5'' = Some (new_player alice_request 5 6)" by (simp add: s1)
  have f1: "\<not> Dead (new_player alice_request 5 6)" "\<not> IsSpectator (new_player alice_request 5 6)"
    by (simp_all add: new_player_def alice_request_def)
  have sh1: "shootBullet s1 ''p5'' ''right'' 7 8 9 =
      (True, s1\<lparr>world := (world s1)\<lparr>Bullets := (Bullets (world s1))(''bullet_'' @ show_int 8 \<mapsto>
                         \<lparr>bID = ''bullet_'' @ show_int 8, bX = X (new_player alice_request 5 6),
                          bY = Y (new_player alice_request 5 6), DirX = 1, DirY = 0,
                          OwnerID = ''p5'', bCharacter = ''*''\<rparr>)\<rparr>,
                 players := (players s1)(''p5'' \<mapsto> (new_player alice_request 5 6)\<lparr>LastShot := 9\<rparr>)\<rparr>)"
    by (simp add: shootBullet_def p1 f1 fresh_player_may_shoot request_glyphs
          direction_vector_def Let_def del: show_int_def)
  have s2: "s2 = snd (shootBullet s1 ''p5'' ''right'' 7 8 9)"
    unfolding s2_def s1_def run.simps step.simps ..
  have c2: "clients s2 0 = Some ''p5''" unfolding s2 sh1 by (simp add: s1)
  have l2: "map_option LastShot (players s2 ''p5'') = Some 9" unfolding s2 sh1 by simp
  have s3: "s3 = addClient s2 1 (new_player bob_request 10005 10006)"
    unfolding s3_def s2_def run.simps step.simps
    by (simp add: handle_join_def request_glyphs Let_def)
  have p3: "players s3 ''p5'' = Some (new_player bob_request 10005 10006)"
    unfolding s3 by (simp add: addClient_def join_bob_again)
  have c3: "clients s3 0 = Some ''p5''"
    unfolding s3 by (simp add: addClient_def c2)
  have f3: "\<not> Dead (new_player bob_request 10005 10006)" "\<not> IsSpectator (new_player bob_request 10005 10006)"
    by (simp_all add: new_player_def bob_request_def)
  have sh3: "fst (shootBullet s3 ''p5'' ''up'' 10007 10008 10009)"
    by (simp add: shootBullet_def p3 f3 fresh_player_may_shoot request_glyphs
          direction_vector_def Let_def del: show_int_def)
  have a: "admissible 0 gameServer
      [Join 0 alice_request 5 6, Shoot ''p5'' ''right'' 7 8 9,
       Join 1 bob_request 10005 10006, Shoot ''p5'' ''up'' 10007 10008 10009]"
    by simp
  have c1: "clients s1 0 = Some ''p5''" by (simp add: s1)
  have f: "fst (shootBullet s1 ''p5'' ''right'' 7 8 9)" by (simp add: sh1)
  have d: "Sub 10007 9 < SHOOT_COOLDOWN"
    by (simp add: Sub_def SHOOT_COOLDOWN_def Millisecond_def)
  from a c1 f l2 c3 sh3 d show ?thesis
    unfolding s1_def s2_def s3_def by (intro conjI)
qed

lemma crowd_ids:
  "ID (new_player alice_request 1 1) = ''p1''" "ID (new_player bob_request 2 3) = ''p2''"
  "ID (new_player sam_request 9 9) = ''p9''"
  by (simp_all add: new_player_def go_rem_nonneg show_int_def show_nat_digit digit_char_def)

lemma sam_glyph: "length (jCharacter sam_request) = 1" "jSpectator sam_request"
  by (simp_all add: sam_request_def)

lemma crowd_state:
  "players crowd = [''p1'' \<mapsto> (new_player alice_request 1 1)\<lparr>X := 74, Y := 20, LastSeen := 2, LastShot := 1000\<rparr>,
                    ''p2'' \<mapsto> new_player bob_request 2 3,
                    ''p9'' \<mapsto> new_player sam_request 9 9]"
  "Bullets (world crowd) (''bullet_'' @ show_int 1000) =
     Some \<lparr>bID = ''bullet_'' @ show_int 1000, bX = 74, bY = 20, DirX = 1, DirY = 0,
           OwnerID = ''p1'', bCharacter = ''*''\<rparr>"
  "admissible 0 gameServer crowd_run"
proof -
  let ?A = "new_player alice_request 1 1"
  define s1 where "s1 = step gameServer (Join 0 alice_request 1 1)"
  define s2 where "s2 = step s1 (Move ''p1'' ''left'' 2 [''p1''])"
  define s3 where "s3 = step s2 (Join 1 bob_request 2 3)"
  define s4 where "s4 = step s3 (Join 2 sam_request 9 9)"
  define s5 where "s5 = step s4 (Shoot ''p1'' ''right'' 1000 1000 1000)"
  have c: "crowd = s5"
    unfolding crowd_def crowd_run_def s5_def s4_def s3_def s2_def s1_def run.simps ..
  have p1: "players s1 = [''p1'' \<mapsto> ?A]"
    unfolding s1_def
    by (simp add: handle_join_def request_glyphs Let_def addClient_def crowd_ids gameServer_def)
  have "in_world (X ?A) (Y ?A)" by (simp add: centre_in_world)
  then have "move_target ?A ''left'' = map_option (clamped_cell ?A) (direction_vector ''left'')"
    by (rule move_target_in_world)
  then have mt: "move_target ?A ''left'' = Some (74, 20)"
    by (simp add: direction_vector_def clamped_cell_def WORLD_WIDTH_def WORLD_HEIGHT_def)
  have nb: "\<not> cell_blocked (range_entries (players s1) [''p1'']) ''p1'' 74 20"
    by (simp add: p1 range_entries_def map_filter_simps crowd_ids)
  have o1: "range_order (players s1) [''p1'']" by (simp add: range_order_def p1)
  have p2: "players s2 = [''p1'' \<mapsto> ?A\<lparr>X := 74, Y := 20, LastSeen := 2\<rparr>]"
    unfolding s2_def step.simps using nb
    by (simp add: movePlayer_def p1 mt request_glyphs)
  have p3: "players s3 = (players s2)(''p2'' \<mapsto> new_player bob_request 2 3)"
    unfolding s3_def
    by (simp add: handle_join_def request_glyphs Let_def addClient_def crowd_ids)
  have p4: "players s4 = (players s3)(''p9'' \<mapsto> new_player sam_request 9 9)"
    unfolding s4_def
    by (simp add: handle_join_def sam_glyph Let_def addClient_def crowd_ids)
  have a4: "players s4 ''p1'' = Some (?A\<lparr>X := 74, Y := 20, LastSeen := 2\<rparr>)"
    by (simp add: p4 p3 p2)
  have sh: "shootBullet s4 ''p1'' ''right'' 1000 1000 1000 =
      (True, s4\<lparr>world := (world s4)\<lparr>Bullets := (Bullets (world s4))(''bullet_'' @ show_int 1000 \<mapsto>
                         \<lparr>bID = ''bullet_'' @ show_int 1000, bX = 74, bY = 20, DirX = 1, DirY = 0,
                          OwnerID = ''p1'', bCharacter = ''*''\<rparr>)\<rparr>,
                 players := (players s4)(''p1'' \<mapsto> ?A\<lparr>X := 74, Y := 20, LastSeen := 2, LastShot := 1000\<rparr>)\<rparr>)"
    by (simp add: shootBullet_def a4 fresh_player_may_shoot request_glyphs
          direction_vector_def Let_def del: show_int_def)
  have s5: "s5 = snd (shootBullet s4 ''p1'' ''right'' 1000 1000 1000)"
    unfolding s5_def step.simps ..
  show "players crowd = [''p1'' \<mapsto> ?A\<lparr>X := 74, Y := 20, LastSeen := 2, LastShot := 1000\<rparr>,
                    ''p2'' \<mapsto> new_player bob_request 2 3,
                    ''p9'' \<mapsto> new_player sam_request 9 9]"
    unfolding c s5 sh by (auto simp add: p4 p3 p2 fun_eq_iff)
  show "Bullets (world crowd) (''bullet_'' @ show_int 1000) =
     Some \<lparr>bID = ''bullet_'' @ show_int 1000, bX = 74, bY = 20, DirX = 1, DirY = 0,
           OwnerID = ''p1'', bCharacter = ''*''\<rparr>"
    unfolding c s5 sh by simp
  have "event_ok 1 s1 (Move ''p1'' ''left'' 2 [''p1''])" using o1 by simp
  then show "admissible 0 gameServer crowd_run"
    unfolding crowd_run_def admissible.simps event_end.simps s1_def by simp
qed

text \<open>
  C10, as stated, fails. After the run the bullet of p1 is next to the centre, where the
  player p2 and the spectator p9 stand, both alive; the range of the tick meets p2 before
  p9, so the tick kills p2 and stops: the spectator is alive and has no death.
\<close>

theorem spectator_outlives_hit:
  "admissible 0 gameServer crowd_run
   \<and> range_order (players crowd) [''p1'', ''p2'', ''p9'']
   \<and> map_option (\<lambda>p. (X p, Y p, Dead p, IsSpectator p)) (players crowd ''p9'')
       = Some (75, 20, False, True)
   \<and> map_option (\<lambda>b. (bX (advance b), bY (advance b), OwnerID b))
        (Bullets (world crowd) (''bullet_'' @ show_int 1000)) = Some (75, 20, ''p1'')
   \<and> event_ok 1000 crowd (Tick 1000 100001000 [''p1'', ''p2'', ''p9''])
   \<and> fst (moveBullet_tick crowd [''p1'', ''p2'', ''p9''] (''bullet_'' @ show_int 1000) 100001000)
       = Hit ''p2''
   \<and> map_option (\<lambda>p. (Dead p, Deaths p))
        (players (snd (moveBullet_tick crowd [''p1'', ''p2'', ''p9'']
                         (''bullet_'' @ show_int 1000) 100001000)) ''p9'')
       = Some (False, 0)"
proof -
  let ?A = "(new_player alice_request 1 1)\<lparr>X := 74, Y := 20, LastSeen := 2, LastShot := 1000\<rparr>"
  let ?B = "new_player bob_request 2 3"
  let ?S = "new_player sam_request 9 9"
  let ?b = "\<lparr>bID = ''bullet_'' @ show_int 1000, bX = 74, bY = 20, DirX = 1, DirY = 0,
           OwnerID = ''p1'', bCharacter = ''*''\<rparr>"
  let ?ord = "[''p1'', ''p2'', ''p9'']"
  let ?t = "moveBullet_tick crowd ?ord (''bullet_'' @ show_int 1000) 100001000"
  note ps = crowd_state(1) and b = crowd_state(2) and adm = crowd_state(3)
  have ord: "range_order (players crowd) ?ord"
    by (auto simp add: range_order_def ps split: if_splits)
  have s: "map_option (\<lambda>p. (X p, Y p, Dead p, IsSpectator p)) (players crowd ''p9'') = Some (75, 20, False, True)"
    by (simp add: ps sam_glyph)
  have bb: "map_option (\<lambda>b. (bX (advance b), bY (advance b), OwnerID b))
        (Bullets (world crowd) (''bullet_'' @ show_int 1000)) = Some (75, 20, ''p1'')"
    unfolding b by simp
  have ok: "event_ok 1000 crowd (Tick 1000 100001000 ?ord)"
    using ord by (simp add: BULLET_SPEED_def Millisecond_def)
  have inw: "in_world (bX ?b + DirX ?b) (bY ?b + DirY ?b)"
    by (simp add: in_world_def WORLD_WIDTH_def WORLD_HEIGHT_def)
  have re: "range_entries (players crowd) ?ord = [(''p1'', ?A), (''p2'', ?B), (''p9'', ?S)]"
    by (simp add: range_entries_def map_filter_simps ps)
  have fv: "find_victim (range_entries (players crowd) ?ord) (advance ?b) = Some (''p2'', ?B)"
    unfolding re by (simp add: crowd_ids)
  note t = moveBullet_tick_hit[OF b inw fv, of 100001000]
  have h: "fst ?t = Hit ''p2''" unfolding t by (simp add: crowd_ids)
  have "players (snd ?t) ''p9'' = players crowd ''p9''"
    unfolding t by (simp add: credit_kill_other)
  then have u: "map_option (\<lambda>p. (Dead p, Deaths p)) (players (snd ?t) ''p9'') = Some (False, 0)"
    by (simp add: ps)
  from adm ord s bb ok h u show ?thesis by (intro conjI)
qed

section \<open>The leaderboard\<close>

lemma mset_sink: "mset (fst (sink lessAt x before c)) = add_mset x (mset before)"
proof (induction before arbitrary: c)
  case Nil
  then show ?case by simp
next
  case (Cons y ys)
  obtain b' c' where s: "sink lessAt x ys (Suc c) = (b', c')" by fastforce
  with Cons[of "Suc c"] have "mset b' = add_mset x (mset ys)" by simp
  with s show ?case by simp
qed

lemma mset_insertion_sort:
  "mset (fst (insertion_sort lessAt xs before c)) = mset xs + mset before"
proof (induction xs arbitrary: before c)
  case Nil
  then show ?case by simp
next
  case (Cons x xs)
  obtain b' c' where s: "sink lessAt x before c = (b', c')" by fastforce
  have "mset b' = add_mset x (mset before)" using mset_sink[of lessAt x before c] s by simp
  with Cons[of b' c'] s show ?case by simp
qed

lemma mset_sort_Slice: "mset (fst (sort_Slice lessAt xs)) = mset xs"
  by (simp add: sort_Slice_def mset_insertion_sort)

lemma board_le_not_less: "board_le a b \<longleftrightarrow> \<not> leaderboard_less b a"
  by (auto simp add: board_le_def leaderboard_less_def)

lemma board_le_trans: "board_le a b \<Longrightarrow> board_le b c \<Longrightarrow> board_le a c"
  by (auto simp add: board_le_def)

lemma board_le_total: "board_le a b \<or> board_le b a"
  by (auto simp add: board_le_def)

lemma map_fst_range_entries: "set ks \<subseteq> dom m \<Longrightarrow> map fst (range_entries m ks) = ks"
  by (induction ks) (auto simp add: range_entries_def map_filter_simps)

lemma nth_enumerate_map:
  "i < length xs \<Longrightarrow> map (\<lambda>(i, x). f i x) (enumerate 0 xs) ! i = f i (xs ! i)"
  by (simp add: nth_enumerate_eq)


lemma digit_char_digit: "d < 10 \<Longrightarrow> digit_char d \<in> set ''0123456789''"
  unfolding digit_char_def by (rule nth_mem) simp

lemma set_show_nat: "set (show_nat n) \<subseteq> set ''0123456789''"
proof (induction n rule: show_nat.induct)
  case (1 n)
  show ?case
  proof (cases "n < 10")
    case True
    with digit_char_digit[of n] show ?thesis by (simp add: show_nat_digit)
  next
    case False
    with "1.IH" digit_char_digit[of "n mod 10"] show ?thesis
      by (simp add: show_nat_step)
  qed
qed

lemma two_decimals_Sprintf_2f: "two_decimals (Sprintf_2f f)"
  unfolding two_decimals_def Sprintf_2f_def Let_def
proof (intro exI conjI)
  let ?n = "nat (round_half_even (\<bar>f\<bar> * 100))"
  show "(if f < 0 then ''-'' else []) @ show_nat (?n div 100) @ ''.'' @
      [digit_char (?n div 10 mod 10), digit_char (?n mod 10)] =
      (if f < 0 then ''-'' else []) @ show_nat (?n div 100) @ ''.'' @
      [digit_char (?n div 10 mod 10), digit_char (?n mod 10)]" ..
  show "(if f < 0 then ''-'' else []) = [] \<or> (if f < 0 then ''-'' else []) = ''-''" by simp
  show "show_nat (?n div 100) \<noteq> []" by (rule show_nat_not_Nil)
  show "set (show_nat (?n div 100)) \<subseteq> set ''0123456789''" by (rule set_show_nat)
  show "digit_char (?n div 10 mod 10) \<in> set ''0123456789''" by (rule digit_char_digit) simp
  show "digit_char (?n mod 10) \<in> set ''0123456789''" by (rule digit_char_digit) simp
qed

lemma Sprintf_2f_of_int: "Sprintf_2f (of_int k) = show_int k @ ''.00''"
proof -
  have "\<bar>rat_of_int k\<bar> * 100 = of_int (\<bar>k\<bar> * 100)" by simp
  then have r: "round_half_even (\<bar>rat_of_int k\<bar> * 100) = \<bar>k\<bar> * 100"
    by (simp only: round_half_even_of_int)
  have n: "nat (\<bar>k\<bar> * 100) = nat \<bar>k\<bar> * 100" by (simp add: nat_mult_distrib)
  have d: "nat \<bar>k\<bar> * 100 div 100 = nat \<bar>k\<bar>" "nat \<bar>k\<bar> * 100 div 10 mod 10 = 0"
    "nat \<bar>k\<bar> * 100 mod 10 = 0"
    by simp_all
  show ?thesis
    unfolding Sprintf_2f_def Let_def r n d
    by (simp add: show_int_def digit_char_def)
qed

lemma kdr_no_deaths:
  assumes "Deaths p \<le> 0" and "\<bar>Kills p\<bar> < 2 ^ 53"
  shows "Sprintf_2f (kdr_value p) = show_int (Kills p) @ ''.00''"
  using assms by (simp add: kdr_value_def float64_of_int_exact Sprintf_2f_of_int)


lemma leaderboard_less_board_le: "leaderboard_less a b \<Longrightarrow> board_le a b"
  by (auto simp add: board_le_def leaderboard_less_def split: if_splits)

text \<open>While no write lands, the sort leaves the pointers in the order of the leaderboard.\<close>

lemma sorted_sink:
  assumes q: "\<And>n a b. a \<in> S \<Longrightarrow> b \<in> S \<Longrightarrow> lessAt n a b = leaderboard_less (P a) (P b)"
    and x: "x \<in> S" and sub: "set before \<subseteq> S"
    and sorted: "sorted_wrt (\<lambda>a b. board_le (P b) (P a)) before"
  shows "sorted_wrt (\<lambda>a b. board_le (P b) (P a)) (fst (sink lessAt x before c))"
  using sub sorted
proof (induction before arbitrary: c)
  case Nil
  then show ?case by simp
next
  case (Cons y ys)
  from Cons.prems have y: "y \<in> S" and ys: "set ys \<subseteq> S"
    and sys: "sorted_wrt (\<lambda>a b. board_le (P b) (P a)) ys"
    and below: "\<forall>z \<in> set ys. board_le (P z) (P y)"
    by simp_all
  show ?case
  proof (cases "lessAt c x y")
    case True
    obtain b' c' where s: "sink lessAt x ys (Suc c) = (b', c')" by fastforce
    from Cons.IH[OF ys sys, of "Suc c"] s
    have ih: "sorted_wrt (\<lambda>a b. board_le (P b) (P a)) b'" by simp
    have "mset b' = add_mset x (mset ys)" using mset_sink[of lessAt x ys "Suc c"] s by simp
    then have set: "set b' = insert x (set ys)" by (metis mset_eq_setD set_mset_add_mset_insert set_mset_mset)
    from True q[OF x y] have "board_le (P x) (P y)" by (simp add: leaderboard_less_board_le)
    with below set have "\<forall>z \<in> set b'. board_le (P z) (P y)" by simp
    with ih True s show ?thesis by simp
  next
    case False
    with q[OF x y] have yx: "board_le (P y) (P x)" by (simp add: board_le_not_less)
    with below have "\<forall>z \<in> set ys. board_le (P z) (P x)" by (auto intro: board_le_trans)
    with Cons.prems False yx show ?thesis by simp
  qed
qed

lemma sorted_insertion_sort:
  assumes q: "\<And>n a b. a \<in> S \<Longrightarrow> b \<in> S \<Longrightarrow> lessAt n a b = leaderboard_less (P a) (P b)"
  shows "set xs \<subseteq> S \<Longrightarrow> set before \<subseteq> S
     \<Longrightarrow> sorted_wrt (\<lambda>a b. board_le (P b) (P a)) before
     \<Longrightarrow> sorted_wrt (\<lambda>a b. board_le (P a) (P b)) (fst (insertion_sort lessAt xs before c))"
proof (induction xs arbitrary: before c)
  case Nil
  then show ?case by (simp add: sorted_wrt_rev)
next
  case (Cons x xs)
  obtain b' c' where s: "sink lessAt x before c = (b', c')" by fastforce
  from Cons.prems have x: "x \<in> S" and xs: "set xs \<subseteq> S" by simp_all
  have "mset b' = add_mset x (mset before)" using mset_sink[of lessAt x before c] s by simp
  then have "set b' = insert x (set before)"
    by (metis mset_eq_setD set_mset_add_mset_insert set_mset_mset)
  with x Cons.prems(2) have sub: "set b' \<subseteq> S" by simp
  have "sorted_wrt (\<lambda>a b. board_le (P b) (P a)) b'"
    using sorted_sink[of S lessAt P x before c, OF q x Cons.prems(2,3)] s by simp
  from Cons.IH[OF xs sub this, of c'] s show ?case by simp
qed

lemma sorted_sort_Slice:
  assumes "\<And>n a b. a \<in> S \<Longrightarrow> b \<in> S \<Longrightarrow> lessAt n a b = leaderboard_less (P a) (P b)"
    and "set xs \<subseteq> S"
  shows "sorted_wrt (\<lambda>a b. board_le (P a) (P b)) (fst (sort_Slice lessAt xs))"
  unfolding sort_Slice_def using assms by (rule sorted_insertion_sort) simp_all

lemma getLeaderboard_sorted:
  "getLeaderboard gs ord mem =
     map (\<lambda>(i, player). leaderboard_entry i
            (mem (snd (sort_Slice (\<lambda>n i j. leaderboard_less (mem n i) (mem n j))
                         (map fst (range_entries (players gs) ord))) + i) player))
       (enumerate 0 (fst (sort_Slice (\<lambda>n i j. leaderboard_less (mem n i) (mem n j))
                            (map fst (range_entries (players gs) ord)))))"
  by (simp add: getLeaderboard_def Let_def case_prod_beta)

text \<open>
  The leaderboard while no write lands between the snapshot and the last round of the
  loop. It lists every player once (\<open>ks\<close> enumerates the ids in the order of the list),
  gives the entry at position \<open>i\<close> the rank \<open>i + 1\<close> and the name, glyph, kills and deaths of
  its player, orders the entries by kills descending and deaths ascending among equal
  kills, and prints the ratio with two decimals; for a player without deaths the ratio is
  the kill count (exactly, for counts a float64 holds).
\<close>

theorem leaderboard_quiet:
  assumes ord: "range_order (players gs) ord"
    and q: "quiet gs mem"
  shows "\<exists>ks. range_order (players gs) ks
     \<and> length (getLeaderboard gs ord mem) = length ks
     \<and> (\<forall>i<length ks. \<exists>p. players gs (ks ! i) = Some p
           \<and> getLeaderboard gs ord mem ! i =
                \<lparr>rank = int i + 1, lbName = Name p, lbCharacter = Character p,
                 lbKills = Kills p, lbDeaths = Deaths p, kdr = Sprintf_2f (kdr_value p)\<rparr>
           \<and> two_decimals (kdr (getLeaderboard gs ord mem ! i))
           \<and> (Deaths p = 0 \<and> \<bar>Kills p\<bar> < 2 ^ 53 \<longrightarrow>
                 kdr (getLeaderboard gs ord mem ! i) = show_int (Kills p) @ ''.00''))
     \<and> (\<forall>i j. i < j \<and> j < length ks \<longrightarrow>
           ranks_before (getLeaderboard gs ord mem ! i) (getLeaderboard gs ord mem ! j))"
proof -
  define lessAt where "lessAt = (\<lambda>n i j. leaderboard_less (mem n i) (mem n j))"
  define P where "P = mem 0"
  define ks where "ks = fst (sort_Slice lessAt ord)"
  define c where "c = snd (sort_Slice lessAt ord)"
  from ord have sub: "set ord \<subseteq> dom (players gs)" by (simp add: range_order_def)
  have ptrs: "map fst (range_entries (players gs) ord) = ord"
    using sub by (rule map_fst_range_entries)
  have lb: "getLeaderboard gs ord mem =
      map (\<lambda>(i, player). leaderboard_entry i (mem (c + i) player)) (enumerate 0 ks)"
    unfolding getLeaderboard_sorted ptrs ks_def c_def lessAt_def ..
  have rd: "mem n k = P k" if "k \<in> dom (players gs)" for n k
    using that q by (auto simp add: quiet_def P_def)
  have lookup0: "players gs k = Some (P k)" if "k \<in> dom (players gs)" for k
    using that q by (auto simp add: quiet_def P_def)
  have mk: "mset ks = mset ord" unfolding ks_def by (rule mset_sort_Slice)
  from mk have sk: "set ks = set ord" by (rule mset_eq_setD)
  moreover from mk have "distinct ks = distinct ord" by (rule mset_eq_imp_distinct_iff)
  ultimately have rk: "range_order (players gs) ks" using ord by (simp add: range_order_def)
  from rk have dom: "set ks = dom (players gs)" by (simp add: range_order_def)
  have lookup: "players gs (ks ! i) = Some (P (ks ! i))" if "i < length ks" for i
    using that dom by (intro lookup0) (metis nth_mem)
  have entry: "getLeaderboard gs ord mem ! i = leaderboard_entry i (P (ks ! i))"
    if "i < length ks" for i
  proof -
    have "getLeaderboard gs ord mem ! i = leaderboard_entry i (mem (c + i) (ks ! i))"
      unfolding lb using that by (rule nth_enumerate_map)
    moreover have "ks ! i \<in> dom (players gs)" using that dom by (metis nth_mem)
    ultimately show ?thesis by (simp add: rd)
  qed
  have "lessAt n a b = leaderboard_less (P a) (P b)"
    if "a \<in> dom (players gs)" "b \<in> dom (players gs)" for n a b
    using that by (simp add: lessAt_def rd)
  then have sorted: "sorted_wrt (\<lambda>a b. board_le (P a) (P b)) ks"
    unfolding ks_def using sub by (rule sorted_sort_Slice)
  have "length (getLeaderboard gs ord mem) = length ks" by (simp add: lb)
  moreover have "\<forall>i<length ks. \<exists>p. players gs (ks ! i) = Some p
           \<and> getLeaderboard gs ord mem ! i =
                \<lparr>rank = int i + 1, lbName = Name p, lbCharacter = Character p,
                 lbKills = Kills p, lbDeaths = Deaths p, kdr = Sprintf_2f (kdr_value p)\<rparr>
           \<and> two_decimals (kdr (getLeaderboard gs ord mem ! i))
           \<and> (Deaths p = 0 \<and> \<bar>Kills p\<bar> < 2 ^ 53 \<longrightarrow>
                 kdr (getLeaderboard gs ord mem ! i) = show_int (Kills p) @ ''.00'')"
  proof (intro allI impI)
    fix i assume i: "i < length ks"
    show "\<exists>p. players gs (ks ! i) = Some p
           \<and> getLeaderboard gs ord mem ! i =
                \<lparr>rank = int i + 1, lbName = Name p, lbCharacter = Character p,
                 lbKills = Kills p, lbDeaths = Deaths p, kdr = Sprintf_2f (kdr_value p)\<rparr>
           \<and> two_decimals (kdr (getLeaderboard gs ord mem ! i))
           \<and> (Deaths p = 0 \<and> \<bar>Kills p\<bar> < 2 ^ 53 \<longrightarrow>
                 kdr (getLeaderboard gs ord mem ! i) = show_int (Kills p) @ ''.00'')"
      using lookup[OF i] entry[OF i]
      by (auto simp add: leaderboard_entry_def two_decimals_Sprintf_2f kdr_no_deaths)
  qed
  moreover have "\<forall>i j. i < j \<and> j < length ks \<longrightarrow>
           ranks_before (getLeaderboard gs ord mem ! i) (getLeaderboard gs ord mem ! j)"
  proof (intro allI impI)
    fix i j assume a: "i < j \<and> j < length ks"
    with sorted have "board_le (P (ks ! i)) (P (ks ! j))" by (simp add: sorted_wrt_iff_nth_less)
    with a show "ranks_before (getLeaderboard gs ord mem ! i) (getLeaderboard gs ord mem ! j)"
      by (simp add: entry ranks_before_def board_le_def leaderboard_entry_def)
  qed
  ultimately show ?thesis using rk by blast
qed

lemma crowd_hit:
  "moveBullet_tick crowd [''p1'', ''p2'', ''p9''] (''bullet_'' @ show_int 1000) 100001000 =
     (Hit ''p2'',
      crowd\<lparr>players := credit_kill ((players crowd)(''p2'' \<mapsto>
                   killed (new_player bob_request 2 3) 100001000)) ''p1'',
            world := (world crowd)\<lparr>Bullets :=
                   (Bullets (world crowd))(''bullet_'' @ show_int 1000 := None)\<rparr>\<rparr>)"
proof -
  let ?A = "(new_player alice_request 1 1)\<lparr>X := 74, Y := 20, LastSeen := 2, LastShot := 1000\<rparr>"
  let ?B = "new_player bob_request 2 3"
  let ?S = "new_player sam_request 9 9"
  let ?b = "\<lparr>bID = ''bullet_'' @ show_int 1000, bX = 74, bY = 20, DirX = 1, DirY = 0,
           OwnerID = ''p1'', bCharacter = ''*''\<rparr>"
  let ?ord = "[''p1'', ''p2'', ''p9'']"
  note ps = crowd_state(1) and b = crowd_state(2)
  have inw: "in_world (bX ?b + DirX ?b) (bY ?b + DirY ?b)"
    by (simp add: in_world_def WORLD_WIDTH_def WORLD_HEIGHT_def)
  have re: "range_entries (players crowd) ?ord = [(''p1'', ?A), (''p2'', ?B), (''p9'', ?S)]"
    by (simp add: range_entries_def map_filter_simps ps)
  have fv: "find_victim (range_entries (players crowd) ?ord) (advance ?b) = Some (''p2'', ?B)"
    unfolding re by (simp add: crowd_ids)
  show ?thesis
    using moveBullet_tick_hit[OF b inw fv, of 100001000] by (simp add: crowd_ids)
qed

lemma crowd_tick_players:
  "players crowd_tick =
     [''p1'' \<mapsto> (new_player alice_request 1 1)\<lparr>X := 74, Y := 20, LastSeen := 2, LastShot := 1000,
                                                  Kills := 1\<rparr>,
      ''p2'' \<mapsto> killed (new_player bob_request 2 3) 100001000,
      ''p9'' \<mapsto> new_player sam_request 9 9]"
  unfolding crowd_tick_def crowd_hit
  by (auto simp add: credit_kill_def crowd_state(1) fun_eq_iff)

text \<open>
  C9 fails when a hit lands between the sort and the loop. getLeaderboard takes its
  snapshot of the three players of the crowd, in the order p2, p1, p9, and sorts it with
  two calls of less while nobody has a kill or a death: the order stays. Then the tick of
  the bullet of p1 kills p2. The loop reads the counters after the hit: rank 1 goes to p2
  with no kill and one death, rank 2 to p1 with one kill and no death.
\<close>

theorem leaderboard_torn_by_hit:
  "admissible 0 gameServer crowd_run
   \<and> event_ok 1000 crowd (Tick 1000 100001000 [''p1'', ''p2'', ''p9''])
   \<and> crowd_tick = step crowd (Tick 1000 100001000 [''p1'', ''p2'', ''p9''])
   \<and> range_order (players crowd) [''p2'', ''p1'', ''p9'']
   \<and> sort_Slice (\<lambda>n i j. leaderboard_less (crowd_memory n i) (crowd_memory n j))
         [''p2'', ''p1'', ''p9''] = ([''p2'', ''p1'', ''p9''], 2)
   \<and> map (\<lambda>e. (rank e, lbName e, lbKills e, lbDeaths e))
         (getLeaderboard crowd [''p2'', ''p1'', ''p9''] crowd_memory)
       = [(1, ''bob'', 0, 1), (2, ''alice'', 1, 0), (3, ''sam'', 0, 0)]
   \<and> \<not> ranks_before (getLeaderboard crowd [''p2'', ''p1'', ''p9''] crowd_memory ! 0)
                       (getLeaderboard crowd [''p2'', ''p1'', ''p9''] crowd_memory ! 1)"
proof -
  let ?A = "(new_player alice_request 1 1)\<lparr>X := 74, Y := 20, LastSeen := 2, LastShot := 1000\<rparr>"
  let ?B = "new_player bob_request 2 3"
  let ?S = "new_player sam_request 9 9"
  let ?lessAt = "\<lambda>n i j. leaderboard_less (crowd_memory n i) (crowd_memory n j)"
  note ps = crowd_state(1) and adm = crowd_state(3)
  have o3: "range_order (players crowd) [''p1'', ''p2'', ''p9'']"
    by (auto simp add: range_order_def ps split: if_splits)
  then have ok: "event_ok 1000 crowd (Tick 1000 100001000 [''p1'', ''p2'', ''p9''])"
    by (simp add: BULLET_SPEED_def Millisecond_def)
  have st: "crowd_tick = step crowd (Tick 1000 100001000 [''p1'', ''p2'', ''p9''])"
    unfolding crowd_tick_def step.simps ..
  have ord: "range_order (players crowd) [''p2'', ''p1'', ''p9'']"
    by (auto simp add: range_order_def ps split: if_splits)
  have m0: "crowd_memory 0 ''p1'' = ?A" "crowd_memory 0 ''p2'' = ?B"
    and m1: "crowd_memory (Suc 0) ''p9'' = ?S" "crowd_memory (Suc 0) ''p1'' = ?A"
    by (simp_all add: crowd_memory_def ps)
  have m2: "\<And>n. crowd_memory (Suc (Suc n)) ''p2'' = killed ?B 100001000"
    "\<And>n. crowd_memory (Suc (Suc n)) ''p1'' = ?A\<lparr>Kills := 1\<rparr>"
    "\<And>n. crowd_memory (Suc (Suc n)) ''p9'' = ?S"
    by (simp_all add: crowd_memory_def crowd_tick_players)
  have l0: "\<not> ?lessAt 0 ''p1'' ''p2''" by (simp add: m0 leaderboard_less_def)
  have l1: "\<not> ?lessAt (Suc 0) ''p9'' ''p1''" by (simp add: m1 leaderboard_less_def)
  have srt: "sort_Slice ?lessAt [''p2'', ''p1'', ''p9''] = ([''p2'', ''p1'', ''p9''], 2)"
    using l0 l1 by (simp add: sort_Slice_def numeral_2_eq_2)
  have re: "map fst (range_entries (players crowd) [''p2'', ''p1'', ''p9'']) = [''p2'', ''p1'', ''p9'']"
    by (simp add: range_entries_def map_filter_simps ps)
  have lb: "getLeaderboard crowd [''p2'', ''p1'', ''p9''] crowd_memory =
      [leaderboard_entry 0 (killed ?B 100001000), leaderboard_entry 1 (?A\<lparr>Kills := 1\<rparr>),
       leaderboard_entry 2 ?S]"
    unfolding getLeaderboard_sorted re srt
    by (simp add: enumerate_eq_zip upt_rec m2 numeral_3_eq_3 numeral_2_eq_2)
  have names: "Name ?B = ''bob''" "Name (new_player alice_request 1 1) = ''alice''"
    "Name ?S = ''sam''"
    by (simp_all add: new_player_def bob_request_def alice_request_def sam_request_def)
  have tbl: "map (\<lambda>e. (rank e, lbName e, lbKills e, lbDeaths e))
         (getLeaderboard crowd [''p2'', ''p1'', ''p9''] crowd_memory)
       = [(1, ''bob'', 0, 1), (2, ''alice'', 1, 0), (3, ''sam'', 0, 0)]"
    unfolding lb by (simp add: leaderboard_entry_def killed_def names)
  have nr: "\<not> ranks_before (getLeaderboard crowd [''p2'', ''p1'', ''p9''] crowd_memory ! 0)
                       (getLeaderboard crowd [''p2'', ''p1'', ''p9''] crowd_memory ! 1)"
    unfolding lb by (simp add: ranks_before_def leaderboard_entry_def killed_def)
  from adm ok st ord srt tbl nr show ?thesis by (intro conjI)
qed

section \<open>The frame\<close>

lemma index_ok_fits: "index_ok gw \<longleftrightarrow> fits (Width gw) (Height gw) (Grid gw)"
  by (auto simp add: index_ok_def fits_def list_all_iff)

lemma length_grid_put_row: "length (grid_put g y x s ! i) = length (g ! i)"
proof (cases "i = nat y")
  case True
  then show ?thesis by (cases "i < length g") (simp_all add: grid_put_def list_update_beyond)
next
  case False
  then show ?thesis by (simp add: grid_put_def)
qed

lemma length_grid_put: "length (grid_put g y x s) = length g"
  by (simp add: grid_put_def)

lemma fits_grid_put: "fits w h g \<Longrightarrow> fits w h (grid_put g y x s)"
  unfolding fits_def by (simp only: length_grid_put_row length_grid_put)

lemma grid_get_put:
  assumes "fits w h g" "0 \<le> y" "y < h" "0 \<le> x" "x < w" "0 \<le> y'" "0 \<le> x'"
  shows "grid_get (grid_put g y x s) y' x' = (if y' = y \<and> x' = x then s else grid_get g y' x')"
proof -
  from assms have in_g: "nat y < length g" "nat x < length (g ! nat y)" by (auto simp add: fits_def)
  from assms have eqs: "nat y' = nat y \<longleftrightarrow> y' = y" "nat x' = nat x \<longleftrightarrow> x' = x" by auto
  show ?thesis
    using in_g eqs by (auto simp add: grid_get_def grid_put_def nth_list_update)
qed

lemma clear_columns:
  assumes "\<forall>x \<in> set xs. 0 \<le> x \<and> x < w" "0 \<le> y" "y < h" "fits w h g"
  shows "fits w h (fold (\<lambda>x g. grid_put g y x s) xs g) \<and>
     (\<forall>y' x'. 0 \<le> y' \<and> 0 \<le> x' \<longrightarrow>
        grid_get (fold (\<lambda>x g. grid_put g y x s) xs g) y' x' =
          (if y' = y \<and> x' \<in> set xs then s else grid_get g y' x'))"
  using assms
proof (induction xs arbitrary: g)
  case Nil
  then show ?case by simp
next
  case (Cons a xs)
  from Cons.prems have a: "0 \<le> a" "a < w" and xs: "\<forall>x \<in> set xs. 0 \<le> x \<and> x < w" by simp_all
  from Cons.prems have f: "fits w h (grid_put g y a s)" by (simp add: fits_grid_put)
  note ih = Cons.IH[OF xs Cons.prems(2,3) f]
  have g: "\<And>y' x'. 0 \<le> y' \<Longrightarrow> 0 \<le> x' \<Longrightarrow>
      grid_get (grid_put g y a s) y' x' = (if y' = y \<and> x' = a then s else grid_get g y' x')"
    using Cons.prems a by (intro grid_get_put) simp_all
  from ih g show ?case by auto
qed

lemma clear_rows:
  assumes "\<forall>y \<in> set ys. 0 \<le> y \<and> y < h" "\<forall>x \<in> set xs. 0 \<le> x \<and> x < w" "fits w h g"
  shows "fits w h (fold (\<lambda>y g. fold (\<lambda>x g. grid_put g y x s) xs g) ys g) \<and>
     (\<forall>y' x'. 0 \<le> y' \<and> 0 \<le> x' \<longrightarrow>
        grid_get (fold (\<lambda>y g. fold (\<lambda>x g. grid_put g y x s) xs g) ys g) y' x' =
          (if y' \<in> set ys \<and> x' \<in> set xs then s else grid_get g y' x'))"
  using assms
proof (induction ys arbitrary: g)
  case Nil
  then show ?case by simp
next
  case (Cons a ys)
  from Cons.prems have a: "0 \<le> a" "a < h" and ys: "\<forall>y \<in> set ys. 0 \<le> y \<and> y < h" by simp_all
  note c = clear_columns[OF Cons.prems(2) a Cons.prems(3), of s]
  note ih = Cons.IH[OF ys Cons.prems(2) conjunct1[OF c]]
  from ih c show ?case by auto
qed

lemma stamps:
  assumes ok: "\<And>e. ok e \<Longrightarrow> 0 \<le> py e \<and> py e < h \<and> 0 \<le> px e \<and> px e < w"
    and f: "fits w h g"
  shows "fits w h (fold (\<lambda>e g. if ok e then grid_put g (py e) (px e) (gl e) else g) es g) \<and>
     (\<forall>y' x'. 0 \<le> y' \<and> 0 \<le> x' \<longrightarrow>
        grid_get (fold (\<lambda>e g. if ok e then grid_put g (py e) (px e) (gl e) else g) es g) y' x' =
          (case find (\<lambda>e. ok e \<and> py e = y' \<and> px e = x') (rev es) of
             Some e \<Rightarrow> gl e | None \<Rightarrow> grid_get g y' x'))"
proof (induction es rule: rev_induct)
  case Nil
  with f show ?case by simp
next
  case (snoc e es)
  let ?g = "fold (\<lambda>e g. if ok e then grid_put g (py e) (px e) (gl e) else g) es g"
  from snoc have fg: "fits w h ?g" by simp
  show ?case
  proof (cases "ok e")
    case False
    with snoc show ?thesis by simp
  next
    case True
    from ok[OF True] have r: "0 \<le> py e" "py e < h" "0 \<le> px e" "px e < w" by simp_all
    have g: "\<And>y' x'. 0 \<le> y' \<Longrightarrow> 0 \<le> x' \<Longrightarrow>
      grid_get (grid_put ?g (py e) (px e) (gl e)) y' x' =
        (if y' = py e \<and> x' = px e then gl e else grid_get ?g y' x')"
      using fg r by (intro grid_get_put) simp_all
    from True snoc g fg show ?thesis by (auto simp add: fits_grid_put)
  qed
qed


lemma find_star:
  "(case find P es of Some e \<Rightarrow> ''*'' | None \<Rightarrow> d) = (if list_ex P es then ''*'' else d)"
proof (cases "find P es")
  case None
  then have "\<not> list_ex P es" by (simp add: find_None_iff list_ex_iff)
  with None show ?thesis by simp
next
  case (Some e)
  then have "list_ex P es" by (auto simp add: find_Some_iff list_ex_iff)
  with Some show ?thesis by simp
qed

lemma Repeat_dash: "0 \<le> w \<Longrightarrow> Repeat ''-'' w = Some (replicate (nat w) CHR ''-'')"
proof -
  have "concat (replicate n ''-'') = replicate n CHR ''-''" for n
    by (induction n) simp_all
  then show "0 \<le> w \<Longrightarrow> Repeat ''-'' w = Some (replicate (nat w) CHR ''-'')"
    by (simp add: Repeat_def)
qed

lemma unlines_frame:
  "unlines (frame_lines w h cell) =
     ''+'' @ replicate (nat w) CHR ''-'' @ ''+\<newline>'' @
     concat (map (\<lambda>y. ''|'' @ concat (map (\<lambda>x. cell x y) [0..w - 1]) @ ''|\<newline>'') [0..h - 1]) @
     ''+'' @ replicate (nat w) CHR ''-'' @ ''+\<newline>''"
  by (simp add: unlines_def frame_lines_def border_def comp_def)

lemma Render_grid:
  fixes gw :: GameWorld and bs :: "(string \<times> Bullet) list" and pes :: "(string \<times> Player) list"
  assumes ok: "index_ok gw"
    and y: "0 \<le> y" "y < Height gw" and x: "0 \<le> x" "x < Width gw"
  shows "grid_get
     (fold (\<lambda>(k, player) g.
                          if \<not> Dead player \<and> 0 \<le> X player \<and> X player < Width gw
                             \<and> 0 \<le> Y player \<and> Y player < Height gw
                          then grid_put g (Y player) (X player) (Character player) else g) pes
       (fold (\<lambda>(k, bullet) g.
                          if 0 \<le> bX bullet \<and> bX bullet < Width gw \<and> 0 \<le> bY bullet \<and> bY bullet < Height gw
                          then grid_put g (bY bullet) (bX bullet) ''*'' else g) bs
         (fold (\<lambda>y g. fold (\<lambda>x g. grid_put g y x '' '') [0..Width gw - 1] g)
                       [0..Height gw - 1] (Grid gw)))) y x
     = glyph_at bs pes x y"
proof -
  let ?w = "Width gw" and ?h = "Height gw"
  define g1 where "g1 = fold (\<lambda>y g. fold (\<lambda>x g. grid_put g y x '' '') [0..?w - 1] g)
                       [0..?h - 1] (Grid gw)"
  define okb where "okb = (\<lambda>e::string \<times> Bullet.
      0 \<le> bX (snd e) \<and> bX (snd e) < ?w \<and> 0 \<le> bY (snd e) \<and> bY (snd e) < ?h)"
  define okp where "okp = (\<lambda>e::string \<times> Player.
      \<not> Dead (snd e) \<and> 0 \<le> X (snd e) \<and> X (snd e) < ?w \<and> 0 \<le> Y (snd e) \<and> Y (snd e) < ?h)"
  define g2 where "g2 = fold (\<lambda>e g. if okb e then grid_put g (bY (snd e)) (bX (snd e)) ''*'' else g) bs g1"
  define g3 where "g3 = fold (\<lambda>e g. if okp e then grid_put g (Y (snd e)) (X (snd e)) (Character (snd e)) else g) pes g2"
  have fb: "(\<lambda>(k, bullet) g.
                 if 0 \<le> bX bullet \<and> bX bullet < ?w \<and> 0 \<le> bY bullet \<and> bY bullet < ?h
                 then grid_put g (bY bullet) (bX bullet) ''*'' else g) =
            (\<lambda>e g. if okb e then grid_put g (bY (snd e)) (bX (snd e)) ''*'' else g)"
    by (simp add: fun_eq_iff split_beta okb_def)
  have fp: "(\<lambda>(k, player) g.
                 if \<not> Dead player \<and> 0 \<le> X player \<and> X player < ?w \<and> 0 \<le> Y player \<and> Y player < ?h
                 then grid_put g (Y player) (X player) (Character player) else g) =
            (\<lambda>e g. if okp e then grid_put g (Y (snd e)) (X (snd e)) (Character (snd e)) else g)"
    by (simp add: fun_eq_iff split_beta okp_def)
  from ok have f0: "fits ?w ?h (Grid gw)" by (simp add: index_ok_fits)
  have r: "\<forall>y \<in> set [0..?h - 1]. 0 \<le> y \<and> y < ?h" "\<forall>x \<in> set [0..?w - 1]. 0 \<le> x \<and> x < ?w"
    by simp_all
  note cr = clear_rows[OF r f0, of "'' ''", folded g1_def]
  from cr have f1: "fits ?w ?h g1" by (rule conjunct1)
  from cr y(1) x(1) have "grid_get g1 y x = (if y \<in> set [0..?h - 1] \<and> x \<in> set [0..?w - 1] then '' '' else grid_get (Grid gw) y x)"
    by blast
  with y x have c1: "grid_get g1 y x = '' ''" by simp
  have rb: "\<And>e. okb e \<Longrightarrow> 0 \<le> bY (snd e) \<and> bY (snd e) < ?h \<and> 0 \<le> bX (snd e) \<and> bX (snd e) < ?w"
    by (simp add: okb_def)
  note sb = stamps[of okb "\<lambda>e. bY (snd e)" ?h "\<lambda>e. bX (snd e)" ?w g1 "\<lambda>e. ''*''" bs, OF rb f1, folded g2_def]
  from sb have f2: "fits ?w ?h g2" by (rule conjunct1)
  from sb y(1) x(1) have "grid_get g2 y x =
      (case find (\<lambda>e. okb e \<and> bY (snd e) = y \<and> bX (snd e) = x) (rev bs) of
         Some e \<Rightarrow> ''*'' | None \<Rightarrow> grid_get g1 y x)"
    by blast
  then have c2: "grid_get g2 y x =
      (if list_ex (\<lambda>e. okb e \<and> bY (snd e) = y \<and> bX (snd e) = x) (rev bs) then ''*'' else '' '')"
    by (simp only: find_star c1)
  have b: "list_ex (\<lambda>e. okb e \<and> bY (snd e) = y \<and> bX (snd e) = x) (rev bs) =
      list_ex (\<lambda>(k, b). bX b = x \<and> bY b = y) bs"
  proof -
    have "(\<lambda>e. okb e \<and> bY (snd e) = y \<and> bX (snd e) = x) = (\<lambda>(k, b). bX b = x \<and> bY b = y)"
      using y x by (auto simp add: fun_eq_iff okb_def)
    then show ?thesis by (simp add: list_ex_iff)
  qed
  have rp: "\<And>e. okp e \<Longrightarrow> 0 \<le> Y (snd e) \<and> Y (snd e) < ?h \<and> 0 \<le> X (snd e) \<and> X (snd e) < ?w"
    by (simp add: okp_def)
  note sp = stamps[of okp "\<lambda>e. Y (snd e)" ?h "\<lambda>e. X (snd e)" ?w g2 "\<lambda>e. Character (snd e)" pes, OF rp f2, folded g3_def]
  have p: "(\<lambda>e. okp e \<and> Y (snd e) = y \<and> X (snd e) = x) = (\<lambda>(k, p). \<not> Dead p \<and> X p = x \<and> Y p = y)"
    using y x by (auto simp add: fun_eq_iff okp_def)
  from sp y(1) x(1) have "grid_get g3 y x =
      (case find (\<lambda>e. okp e \<and> Y (snd e) = y \<and> X (snd e) = x) (rev pes) of
         Some e \<Rightarrow> Character (snd e) | None \<Rightarrow> grid_get g2 y x)"
    by blast
  then have c3: "grid_get g3 y x =
      (case find (\<lambda>(k, p). \<not> Dead p \<and> X p = x \<and> Y p = y) (rev pes) of
         Some e \<Rightarrow> Character (snd e) | None \<Rightarrow> grid_get g2 y x)"
    by (simp only: p)
  have "grid_get g3 y x = glyph_at bs pes x y"
    unfolding c3 c2 b glyph_at_def by (simp add: split_beta cong: option.case_cong)
  then show ?thesis
    unfolding g3_def g2_def g1_def fb fp .
qed

lemma Render_frame:
  assumes ok: "index_ok gw" and w: "0 \<le> Width gw"
  shows "\<exists>g. Render gw bord pord ps =
     Some (unlines (frame_lines (Width gw) (Height gw)
             (glyph_at (range_entries (Bullets gw) bord) (range_entries ps pord))),
           gw\<lparr>Grid := g\<rparr>)"
proof -
  let ?cell = "glyph_at (range_entries (Bullets gw) bord) (range_entries ps pord)"
  define g3 where "g3 = fold (\<lambda>(k, player) g.
                          if \<not> Dead player \<and> 0 \<le> X player \<and> X player < Width gw
                             \<and> 0 \<le> Y player \<and> Y player < Height gw
                          then grid_put g (Y player) (X player) (Character player) else g)
                       (range_entries ps pord)
     (fold (\<lambda>(k, bullet) g.
                          if 0 \<le> bX bullet \<and> bX bullet < Width gw \<and> 0 \<le> bY bullet \<and> bY bullet < Height gw
                          then grid_put g (bY bullet) (bX bullet) ''*'' else g)
                       (range_entries (Bullets gw) bord)
        (fold (\<lambda>y g. fold (\<lambda>x g. grid_put g y x '' '') [0..Width gw - 1] g)
                       [0..Height gw - 1] (Grid gw)))"
  have cell: "grid_get g3 y x = ?cell x y" if "0 \<le> y" "y < Height gw" "0 \<le> x" "x < Width gw" for x y
    unfolding g3_def using ok that by (rule Render_grid)
  have rows: "map (\<lambda>y. ''|'' @ concat (map (\<lambda>x. grid_get g3 y x) [0..Width gw - 1]) @ ''|\<newline>'')
                  [0..Height gw - 1] =
      map (\<lambda>y. ''|'' @ concat (map (\<lambda>x. ?cell x y) [0..Width gw - 1]) @ ''|\<newline>'') [0..Height gw - 1]"
    by (intro map_cong refl arg_cong2[where f = append] arg_cong[where f = concat]) (simp_all add: cell)
  have "Render gw bord pord ps =
     Some (unlines (frame_lines (Width gw) (Height gw) ?cell), gw\<lparr>Grid := g3\<rparr>)"
    unfolding Render_def Let_def g3_def[symmetric]
    by (simp only: ok not_True_eq_False if_False Repeat_dash[OF w] option.case rows unlines_frame)
  then show ?thesis by blast
qed

lemma length_upto0: "length [0..n - 1] = nat n"
  by simp

lemma nth_upto0: "0 \<le> y \<Longrightarrow> y < n \<Longrightarrow> [0..n - 1] ! nat y = y"
  by (simp add: nth_upto)

lemma concat_single_glyphs:
  "(\<And>x. length (f x) = 1) \<Longrightarrow> concat (map f xs) = map (\<lambda>x. hd (f x)) xs"
proof (induction xs)
  case Nil
  then show ?case by simp
next
  case (Cons a xs)
  from Cons.prems[of a] have "f a = [hd (f a)]" by (cases "f a") simp_all
  with Cons show ?case by (metis append_Cons append_Nil concat.simps(2) list.simps(9))
qed

lemma length_border: "length (border w) = nat w + 2"
  by (simp add: border_def)

lemma frame_row:
  assumes "\<And>x. length (cell x y) = 1"
  shows "''|'' @ concat (map (\<lambda>x. cell x y) [0..w - 1]) @ ''|'' =
         CHR ''|'' # map (\<lambda>x. hd (cell x y)) [0..w - 1] @ ''|''"
  using concat_single_glyphs[of "\<lambda>x. cell x y" "[0..w - 1]"] assms by simp

lemma length_frame_lines: "length (frame_lines w h cell) = nat h + 2"
  by (simp add: frame_lines_def)

lemma frame_lines_nth:
  assumes "0 \<le> y" "y < h"
  shows "frame_lines w h cell ! (nat y + 1) = ''|'' @ concat (map (\<lambda>x. cell x y) [0..w - 1]) @ ''|''"
proof -
  from assms have l: "nat y < length [0..h - 1]" by simp
  have "frame_lines w h cell ! (nat y + 1) =
      (map (\<lambda>y. ''|'' @ concat (map (\<lambda>x. cell x y) [0..w - 1]) @ ''|'') [0..h - 1] @ [border w]) ! nat y"
    by (simp add: frame_lines_def)
  also have "\<dots> = map (\<lambda>y. ''|'' @ concat (map (\<lambda>x. cell x y) [0..w - 1]) @ ''|'') [0..h - 1] ! nat y"
    using l by (simp add: nth_append)
  also have "\<dots> = ''|'' @ concat (map (\<lambda>x. cell x ([0..h - 1] ! nat y)) [0..w - 1]) @ ''|''"
    using l by (simp only: nth_map)
  finally show ?thesis using assms by (simp only: nth_upto0)
qed

lemma frame_lines_lengths:
  assumes "\<And>x y. length (cell x y) = 1"
  shows "\<forall>l \<in> set (frame_lines w h cell). length l = nat w + 2"
proof -
  have "length (''|'' @ concat (map (\<lambda>x. cell x y) [0..w - 1]) @ ''|'') = nat w + 2" for y
    unfolding frame_row[of cell y w, OF assms] by simp
  then show ?thesis by (auto simp add: frame_lines_def length_border)
qed

lemma nth_unlines:
  "\<forall>l \<in> set ls. length l = n \<Longrightarrow> i < length ls \<Longrightarrow> j < n \<Longrightarrow>
     unlines ls ! (i * (n + 1) + j) = ls ! i ! j"
proof (induction ls arbitrary: i)
  case Nil
  then show ?case by simp
next
  case (Cons l ls)
  from Cons.prems have len: "length l = n" and rest: "\<forall>l \<in> set ls. length l = n" by simp_all
  have u: "unlines (l # ls) = (l @ ''\<newline>'') @ unlines ls" by (simp add: unlines_def)
  show ?case
  proof (cases i)
    case 0
    with Cons.prems len show ?thesis by (simp add: u nth_append)
  next
    case (Suc i')
    with Cons.prems have i': "i' < length ls" by simp
    have "unlines (l # ls) ! (i * (n + 1) + j) = unlines ls ! (i * (n + 1) + j - (n + 1))"
      unfolding u using len Suc by (simp add: nth_append)
    also have "i * (n + 1) + j - (n + 1) = i' * (n + 1) + j" using Suc by simp
    also have "unlines ls ! (i' * (n + 1) + j) = ls ! i' ! j"
      using rest i' Cons.prems(3) by (rule Cons.IH)
    finally show ?thesis using Suc by simp
  qed
qed

lemma frame_char:
  assumes one: "\<And>x y. length (cell x y) = 1"
    and y: "0 \<le> y" "y < h" and x: "0 \<le> x" "x < w"
  shows "unlines (frame_lines w h cell) ! ((nat y + 1) * (nat w + 3) + (nat x + 1)) = hd (cell x y)"
proof -
  have "unlines (frame_lines w h cell) ! ((nat y + 1) * ((nat w + 2) + 1) + (nat x + 1)) =
      frame_lines w h cell ! (nat y + 1) ! (nat x + 1)"
    using frame_lines_lengths[of cell w h, OF one] y x
    by (intro nth_unlines) (simp_all add: length_frame_lines)
  also have "\<dots> = (CHR ''|'' # map (\<lambda>x. hd (cell x y)) [0..w - 1] @ ''|'') ! (nat x + 1)"
    by (simp only: frame_lines_nth[OF y] frame_row[of cell y w, OF one])
  also have "\<dots> = (map (\<lambda>x. hd (cell x y)) [0..w - 1] @ ''|'') ! nat x" by simp
  also have "\<dots> = map (\<lambda>x. hd (cell x y)) [0..w - 1] ! nat x"
    using x by (simp add: nth_append)
  also have "\<dots> = hd (cell ([0..w - 1] ! nat x) y)" using x by simp
  also have "\<dots> = hd (cell x y)" using x by (simp only: nth_upto0)
  finally show ?thesis by (simp add: add.assoc numeral_3_eq_3)
qed

lemma find_rev_None: "find P (rev es) = None \<longleftrightarrow> \<not> (\<exists>e \<in> set es. P e)"
  by (auto simp add: find_None_iff)

lemma find_Some_mem: "find P es = Some e \<Longrightarrow> e \<in> set es \<and> P e"
  by (induction es) (auto split: if_splits)

lemma find_rev_Some: "find P (rev es) = Some e \<Longrightarrow> e \<in> set es \<and> P e"
  using find_Some_mem[of P "rev es" e] by simp

lemma glyph_at_player:
  assumes pord: "range_order ps pord"
    and ex: "\<exists>k p. ps k = Some p \<and> \<not> Dead p \<and> X p = x \<and> Y p = y"
  shows "\<exists>k p. ps k = Some p \<and> \<not> Dead p \<and> X p = x \<and> Y p = y
           \<and> glyph_at bs (range_entries ps pord) x y = Character p"
proof -
  let ?P = "\<lambda>(k, p). \<not> Dead p \<and> X p = x \<and> Y p = y"
  from ex have "\<exists>e \<in> set (range_entries ps pord). ?P e"
    by (auto simp add: set_range_entries_order[OF pord])
  then have "find ?P (rev (range_entries ps pord)) \<noteq> None" by (simp add: find_rev_None)
  then obtain k p where f: "find ?P (rev (range_entries ps pord)) = Some (k, p)" by auto
  from find_rev_Some[OF f] have "ps k = Some p" "\<not> Dead p \<and> X p = x \<and> Y p = y"
    by (simp_all add: set_range_entries)
  moreover from f have "glyph_at bs (range_entries ps pord) x y = Character p"
    by (simp add: glyph_at_def)
  ultimately show ?thesis by blast
qed

lemma glyph_at_no_player:
  assumes pord: "range_order ps pord" and bord: "range_order bm bord"
    and no: "\<not> (\<exists>k p. ps k = Some p \<and> \<not> Dead p \<and> X p = x \<and> Y p = y)"
  shows "glyph_at (range_entries bm bord) (range_entries ps pord) x y =
           (if \<exists>k b. bm k = Some b \<and> bX b = x \<and> bY b = y then ''*'' else '' '')"
proof -
  let ?P = "\<lambda>(k, p). \<not> Dead p \<and> X p = x \<and> Y p = y"
  from no have "\<not> (\<exists>e \<in> set (range_entries ps pord). ?P e)"
    by (auto simp add: set_range_entries_order[OF pord])
  then have f: "find ?P (rev (range_entries ps pord)) = None" by (simp add: find_rev_None)
  have "list_ex (\<lambda>(k, b). bX b = x \<and> bY b = y) (range_entries bm bord) \<longleftrightarrow>
      (\<exists>k b. bm k = Some b \<and> bX b = x \<and> bY b = y)"
    by (auto simp add: list_ex_iff set_range_entries_order[OF bord])
  with f show ?thesis by (simp add: glyph_at_def)
qed

lemma length_glyph_at:
  assumes "single_glyphs ps"
  shows "length (glyph_at bs (range_entries ps pord) x y) = 1"
proof (cases "find (\<lambda>(k, p). \<not> Dead p \<and> X p = x \<and> Y p = y) (rev (range_entries ps pord))")
  case None
  then show ?thesis by (simp add: glyph_at_def)
next
  case (Some e)
  obtain k p where e: "e = (k, p)" by (cases e)
  from find_rev_Some[OF Some] e have "ps k = Some p" by (simp add: set_range_entries)
  with assms have "length (Character p) = 1" by (simp add: single_glyphs_def)
  with Some e show ?thesis by (simp add: glyph_at_def)
qed

lemma Render_char:
  assumes ok: "index_ok gw" and w: "0 \<le> Width gw" and one: "single_glyphs ps"
    and x: "0 \<le> x" "x < Width gw" and y: "0 \<le> y" "y < Height gw"
  shows "map_option (\<lambda>(t, g). t ! ((nat y + 1) * (nat (Width gw) + 3) + (nat x + 1)))
           (Render gw bord pord ps)
         = Some (hd (glyph_at (range_entries (Bullets gw) bord) (range_entries ps pord) x y))"
proof -
  let ?cell = "glyph_at (range_entries (Bullets gw) bord) (range_entries ps pord)"
  have len1: "\<And>x y. length (?cell x y) = 1" using one by (rule length_glyph_at)
  from Render_frame[OF ok w, of bord pord ps] obtain g where
    R: "Render gw bord pord ps = Some (unlines (frame_lines (Width gw) (Height gw) ?cell), gw\<lparr>Grid := g\<rparr>)"
    by blast
  have fc: "unlines (frame_lines (Width gw) (Height gw) ?cell)
        ! ((nat y + 1) * (nat (Width gw) + 3) + (nat x + 1)) = hd (?cell x y)"
    using len1 y x by (rule frame_char)
  show ?thesis unfolding R by (simp only: option.map prod.case fc)
qed

lemma index_ok_NewGameWorld: "index_ok (NewGameWorld\<lparr>Bullets := bm\<rparr>)"
  by (auto simp add: index_ok_fits fits_def NewGameWorld_def WORLD_WIDTH_def WORLD_HEIGHT_def)

lemma NewGameWorld_size:
  "Width (NewGameWorld\<lparr>Bullets := bm\<rparr>) = 150" "Height (NewGameWorld\<lparr>Bullets := bm\<rparr>) = 40"
  by (simp_all add: NewGameWorld_def WORLD_WIDTH_def WORLD_HEIGHT_def)

lemma wf_single_glyphs: "wf_players ps \<Longrightarrow> single_glyphs ps"
  by (simp add: wf_players_def single_glyphs_def)

lemma gallery_player_entries:
  "range_entries (players gallery) [''p1'', ''p9''] =
     [(''p1'', mkPlayer ''p1'' ''A'' 74 20 False False), (''p9'', mkPlayer ''p9'' ''S'' 75 20 False True)]"
  by (simp add: range_entries_def map_filter_simps gallery_def)

lemma gallery_bullet_entries:
  "range_entries (Bullets (world gallery)) [''bullet_1000''] = [(''bullet_1000'', gallery_bullet)]"
  by (simp add: range_entries_def map_filter_simps gallery_def)

lemma text_lines_from_line:
  "CHR 0x0A \<notin> set l \<Longrightarrow>
     text_lines_from line (l @ CHR 0x0A # rest) = (rev line @ l) # text_lines_from [] rest"
  by (induction l arbitrary: line) auto

lemma text_lines_unlines:
  "\<forall>l \<in> set ls. CHR 0x0A \<notin> set l \<Longrightarrow> text_lines (unlines ls) = ls"
proof (induction ls)
  case Nil
  then show ?case by (simp add: text_lines_def unlines_def)
next
  case (Cons l ls)
  then have l: "CHR 0x0A \<notin> set l" and ih: "text_lines_from [] (unlines ls) = ls"
    by (simp_all add: text_lines_def)
  have "unlines (l # ls) = l @ CHR 0x0A # unlines ls" by (simp add: unlines_def)
  with text_lines_from_line[OF l, of "[]" "unlines ls"] ih show ?case
    by (simp add: text_lines_def)
qed

lemma length_text_lines_from:
  "length (text_lines_from line (t @ [CHR 0x0A])) = Suc (count_list t (CHR 0x0A))"
  by (induction t arbitrary: line) auto

lemma count_list_concat_map:
  "count_list (concat (map f xs)) c = sum_list (map (\<lambda>x. count_list (f x) c) xs)"
  by (induction xs) simp_all

lemma count_list_unlines:
  "count_list (unlines ls) (CHR 0x0A) = length ls + sum_list (map (\<lambda>l. count_list l (CHR 0x0A)) ls)"
  by (induction ls) (simp_all add: unlines_def)

lemma sum_list_one:
  "distinct xs \<Longrightarrow> a \<in> set xs \<Longrightarrow> sum_list (map (\<lambda>x. if x = a then 1 else 0) xs) = (1::nat)"
proof (induction xs)
  case Nil
  then show ?case by simp
next
  case (Cons x xs)
  show ?case
  proof (cases "x = a")
    case True
    with Cons.prems have "a \<notin> set xs" by simp
    then have "map (\<lambda>x. if x = a then 1 else 0) xs = map (\<lambda>x. 0::nat) xs" by (intro map_cong) auto
    with True show ?thesis by simp
  next
    case False
    with Cons show ?thesis by simp
  qed
qed

lemma glyph_at_plain:
  assumes "plain_glyphs ps"
  shows "CHR 0x0A \<notin> set (glyph_at bs (range_entries ps pord) x y)"
proof (cases "find (\<lambda>(k, p). \<not> Dead p \<and> X p = x \<and> Y p = y) (rev (range_entries ps pord))")
  case None
  then show ?thesis by (simp add: glyph_at_def)
next
  case (Some e)
  obtain k p where e: "e = (k, p)" by (cases e)
  from find_rev_Some[OF Some] e have "ps k = Some p" "\<not> Dead p" by (simp_all add: set_range_entries)
  with assms have "CHR 0x0A \<notin> set (Character p)" by (simp add: plain_glyphs_def)
  with Some e show ?thesis by (simp add: glyph_at_def)
qed

lemma frame_lines_plain:
  assumes "\<And>x y. CHR 0x0A \<notin> set (cell x y)"
  shows "\<forall>l \<in> set (frame_lines w h cell). CHR 0x0A \<notin> set l"
  using assms by (auto simp add: frame_lines_def border_def)

lemma feed_players:
  "players feed = [''p5'' \<mapsto> new_player feed_request 5 6]" "world feed = NewGameWorld"
  "ID (new_player feed_request 5 6) = ''p5''"
proof -
  show id: "ID (new_player feed_request 5 6) = ''p5''"
    by (simp add: new_player_def go_rem_nonneg show_int_def show_nat_digit digit_char_def)
  have g: "length (jCharacter feed_request) = 1" by (simp add: feed_request_def)
  show "players feed = [''p5'' \<mapsto> new_player feed_request 5 6]"
    by (simp add: feed_def handle_join_def g Let_def addClient_def id gameServer_def)
  show "world feed = NewGameWorld"
    by (simp add: feed_def handle_join_def g Let_def addClient_def id gameServer_def)
qed

lemma feed_cell:
  "glyph_at (range_entries (Bullets (world feed)) []) (range_entries (players feed) [''p5'']) x y =
     (if x = 75 \<and> y = 20 then [CHR 0x0A] else '' '')"
  by (simp add: glyph_at_def range_entries_def map_filter_simps feed_players feed_request_def)

lemma feed_lines:
  "length (text_lines (unlines (frame_lines 150 40
      (glyph_at (range_entries (Bullets (world feed)) []) (range_entries (players feed) [''p5''])))))
   = 43"
proof -
  let ?cell = "\<lambda>x y. if x = (75::int) \<and> y = (20::int) then [CHR 0x0A] else '' ''"
  let ?row = "\<lambda>y. ''|'' @ concat (map (\<lambda>x. ?cell x y) [0..150 - 1]) @ ''|''"
  let ?rows = "map ?row [0..40 - 1]"
  have cnt: "count_list (?row y) (CHR 0x0A) = (if y = 20 then 1 else 0)" for y
  proof -
    have "count_list (?row y) (CHR 0x0A) =
        sum_list (map (\<lambda>x. count_list (?cell x y) (CHR 0x0A)) [0..150 - 1])"
      by (simp add: count_list_concat_map)
    also have "map (\<lambda>x. count_list (?cell x y) (CHR 0x0A)) [0..150 - 1] =
        map (\<lambda>x. if x = 75 then (if y = 20 then 1 else 0) else 0) [0..150 - 1]"
      by (intro map_cong) auto
    also have "sum_list \<dots> = (if y = 20 then 1 else 0)"
      using sum_list_one[of "[0..150 - 1]" 75] by (cases "y = 20") simp_all
    finally show ?thesis .
  qed
  have rows: "sum_list (map (\<lambda>l. count_list l (CHR 0x0A)) ?rows) = 1"
  proof -
    have "map (\<lambda>l. count_list l (CHR 0x0A)) ?rows =
        map (\<lambda>y. count_list (?row y) (CHR 0x0A)) [0..40 - 1]"
      by (simp only: map_map comp_def)
    also have "\<dots> = map (\<lambda>y. if y = 20 then 1 else 0) [0..40 - 1]"
      by (simp only: cnt)
    finally have m: "map (\<lambda>l. count_list l (CHR 0x0A)) ?rows =
        map (\<lambda>y. if y = 20 then 1 else 0) [0..40 - 1]" .
    have "sum_list (map (\<lambda>y. if y = 20 then 1 else 0) [0..40 - 1]) = (1::nat)"
      by (rule sum_list_one) simp_all
    then show ?thesis by (simp only: m)
  qed
  have fl: "frame_lines 150 40 ?cell = (border 150 # ?rows) @ [border 150]"
    by (simp add: frame_lines_def)
  have b: "count_list (border 150) (CHR 0x0A) = 0" by (simp add: border_def)
  have "unlines (frame_lines 150 40 ?cell) = (unlines (border 150 # ?rows) @ border 150) @ [CHR 0x0A]"
    unfolding fl by (simp add: unlines_def)
  then have "length (text_lines (unlines (frame_lines 150 40 ?cell))) =
      Suc (count_list (unlines (border 150 # ?rows) @ border 150) (CHR 0x0A))"
    unfolding text_lines_def by (simp only: length_text_lines_from)
  also have "\<dots> = Suc (length (border 150 # ?rows)
        + sum_list (map (\<lambda>l. count_list l (CHR 0x0A)) (border 150 # ?rows)))"
    by (simp only: count_list_append count_list_unlines b add_0_right)
  also have "\<dots> = 43" using rows b by simp
  finally have "length (text_lines (unlines (frame_lines 150 40 ?cell))) = 43" .
  moreover have "glyph_at (range_entries (Bullets (world feed)) []) (range_entries (players feed) [''p5''])
      = ?cell"
    by (intro ext) (rule feed_cell)
  ultimately show ?thesis by simp
qed


lemma NewGameWorld_plain: "NewGameWorld\<lparr>Bullets := Map.empty\<rparr> = NewGameWorld"
  by (simp add: NewGameWorld_def)

text \<open>
  C8, as stated, fails twice. An alive spectator S stands on the cell (75, 20), where
  there is no bullet and no other player, so the cell should be blank; the frame shows S
  in line 21, column 76 (character 21 * 153 + 76 of the text). And a player whose glyph is
  the line feed, which the join accepts as it is one byte long, breaks its row in two: the
  text of the frame has 43 lines, where height + 2 is 42.
\<close>

theorem spectator_and_line_feed_drawn:
  "glyph_at_without_spectators (range_entries (Bullets (world gallery)) [''bullet_1000''])
       (range_entries (players gallery) [''p1'', ''p9'']) 75 20 = '' ''
   \<and> map_option (\<lambda>(t, g). t ! 3289)
        (Render (world gallery) [''bullet_1000''] [''p1'', ''p9''] (players gallery))
       = Some CHR ''S''
   \<and> length (jCharacter feed_request) = 1
   \<and> range_order (players feed) [''p5'']
   \<and> map_option (\<lambda>(t, g). length (text_lines t))
        (Render (world feed) [] [''p5''] (players feed)) = Some 43
   \<and> nat (Height (world feed)) + 2 = 42"
proof -
  have w: "world gallery = NewGameWorld\<lparr>Bullets := [''bullet_1000'' \<mapsto> gallery_bullet]\<rparr>"
    by (simp add: gallery_def)
  have ok: "index_ok (world gallery)" unfolding w by (rule index_ok_NewGameWorld)
  have sz: "Width (world gallery) = 150" "Height (world gallery) = 40"
    unfolding w by (rule NewGameWorld_size)+
  have one: "single_glyphs (players gallery)" using wf_gallery by (rule wf_single_glyphs)
  have a: "glyph_at_without_spectators (range_entries (Bullets (world gallery)) [''bullet_1000''])
       (range_entries (players gallery) [''p1'', ''p9'']) 75 20 = '' ''"
    by (simp add: glyph_at_without_spectators_def gallery_player_entries gallery_bullet_entries
          mkPlayer_def gallery_bullet_def)
  have c: "glyph_at (range_entries (Bullets (world gallery)) [''bullet_1000''])
       (range_entries (players gallery) [''p1'', ''p9'']) 75 20 = ''S''"
    by (simp add: glyph_at_def gallery_player_entries gallery_bullet_entries mkPlayer_def)
  have "map_option (\<lambda>(t, g). t ! ((nat 20 + 1) * (nat (Width (world gallery)) + 3) + (nat 75 + 1)))
           (Render (world gallery) [''bullet_1000''] [''p1'', ''p9''] (players gallery))
         = Some (hd (glyph_at (range_entries (Bullets (world gallery)) [''bullet_1000''])
                       (range_entries (players gallery) [''p1'', ''p9'']) 75 20))"
    using ok _ one by (rule Render_char) (simp_all add: sz)
  then have b: "map_option (\<lambda>(t, g). t ! 3289)
        (Render (world gallery) [''bullet_1000''] [''p1'', ''p9''] (players gallery)) = Some CHR ''S''"
    unfolding c sz by simp
  have g: "length (jCharacter feed_request) = 1" by (simp add: feed_request_def)
  have o: "range_order (players feed) [''p5'']" by (simp add: range_order_def feed_players)
  have okf: "index_ok (world feed)"
    unfolding feed_players using index_ok_NewGameWorld[of Map.empty]
    by (simp only: NewGameWorld_plain)
  have szf: "Width (world feed) = 150" "Height (world feed) = 40"
    unfolding feed_players using NewGameWorld_size[of Map.empty]
    by (simp_all only: NewGameWorld_plain)
  have "0 \<le> Width (world feed)" by (simp add: szf)
  with okf obtain gr where
    R: "Render (world feed) [] [''p5''] (players feed) =
       Some (unlines (frame_lines (Width (world feed)) (Height (world feed))
               (glyph_at (range_entries (Bullets (world feed)) []) (range_entries (players feed) [''p5'']))),
             (world feed)\<lparr>Grid := gr\<rparr>)"
    using Render_frame[of "world feed" "[]" "[''p5'']" "players feed"] by blast
  have d: "map_option (\<lambda>(t, g). length (text_lines t))
        (Render (world feed) [] [''p5''] (players feed)) = Some 43"
    unfolding R szf by (simp only: option.map prod.case feed_lines)
  have e: "nat (Height (world feed)) + 2 = 42" by (simp add: szf)
  from a b g o d e show ?thesis by (intro conjI)
qed

text \<open>
  C8, amended. When no alive player has a line feed in its glyph, the text that Render
  returns has height + 2 lines: the first and the last are a plus, width dashes and a
  plus; line y + 1 is a bar, the width cells of row y and a bar. The cell (x, y) is the
  glyph of an alive player standing on it, spectator or not (the one the range met last,
  if several), else a star if a bullet is on it, else a blank; a player glyph thus
  overrides a bullet on the same cell. The Grid has a cell for every position of the
  frame.
\<close>

theorem Render_frame_text:
  assumes ok: "index_ok gw" and w: "0 \<le> Width gw"
    and bord: "range_order (Bullets gw) bord" and pord: "range_order ps pord"
    and plain: "plain_glyphs ps"
  shows "\<exists>g text. Render gw bord pord ps = Some (text, gw\<lparr>Grid := g\<rparr>)
     \<and> length (text_lines text) = nat (Height gw) + 2
     \<and> text = concat (map (\<lambda>l. l @ [CHR 0x0A]) (text_lines text))
     \<and> hd (text_lines text) = ''+'' @ replicate (nat (Width gw)) CHR ''-'' @ ''+''
     \<and> last (text_lines text) = ''+'' @ replicate (nat (Width gw)) CHR ''-'' @ ''+''
     \<and> (\<forall>y. 0 \<le> y \<and> y < Height gw \<longrightarrow>
           text_lines text ! (nat y + 1)
           = ''|'' @ concat (map (\<lambda>x. glyph_at (range_entries (Bullets gw) bord)
                                          (range_entries ps pord) x y) [0..Width gw - 1]) @ ''|'')
     \<and> length [0..Width gw - 1] = nat (Width gw)
     \<and> (\<forall>x y. ((\<exists>k p. ps k = Some p \<and> \<not> Dead p \<and> X p = x \<and> Y p = y) \<longrightarrow>
                (\<exists>k p. ps k = Some p \<and> \<not> Dead p \<and> X p = x \<and> Y p = y
                   \<and> glyph_at (range_entries (Bullets gw) bord) (range_entries ps pord) x y = Character p))
           \<and> (\<not> (\<exists>k p. ps k = Some p \<and> \<not> Dead p \<and> X p = x \<and> Y p = y) \<longrightarrow>
                glyph_at (range_entries (Bullets gw) bord) (range_entries ps pord) x y =
                  (if \<exists>k b. Bullets gw k = Some b \<and> bX b = x \<and> bY b = y then ''*'' else '' '')))"
proof -
  let ?cell = "glyph_at (range_entries (Bullets gw) bord) (range_entries ps pord)"
  let ?lines = "frame_lines (Width gw) (Height gw) ?cell"
  from Render_frame[OF ok w, of bord pord ps] obtain g where
    a: "Render gw bord pord ps = Some (unlines ?lines, gw\<lparr>Grid := g\<rparr>)" by blast
  have "\<And>x y. CHR 0x0A \<notin> set (?cell x y)" using plain by (rule glyph_at_plain)
  then have "\<forall>l \<in> set ?lines. CHR 0x0A \<notin> set l" by (rule frame_lines_plain)
  then have tl: "text_lines (unlines ?lines) = ?lines" by (rule text_lines_unlines)
  have b: "length (text_lines (unlines ?lines)) = nat (Height gw) + 2"
    unfolding tl by (rule length_frame_lines)
  have u: "unlines ?lines = concat (map (\<lambda>l. l @ [CHR 0x0A]) (text_lines (unlines ?lines)))"
    unfolding tl by (simp add: unlines_def)
  have c: "hd (text_lines (unlines ?lines)) = ''+'' @ replicate (nat (Width gw)) CHR ''-'' @ ''+''"
    unfolding tl by (simp add: frame_lines_def border_def)
  have d: "last (text_lines (unlines ?lines)) = ''+'' @ replicate (nat (Width gw)) CHR ''-'' @ ''+''"
    unfolding tl by (simp add: frame_lines_def border_def)
  have e: "\<forall>y. 0 \<le> y \<and> y < Height gw \<longrightarrow>
           text_lines (unlines ?lines) ! (nat y + 1)
             = ''|'' @ concat (map (\<lambda>x. ?cell x y) [0..Width gw - 1]) @ ''|''"
    unfolding tl by (intro allI impI, elim conjE) (rule frame_lines_nth)
  have n: "length [0..Width gw - 1] = nat (Width gw)" by (rule length_upto0)
  have f: "\<forall>x y. ((\<exists>k p. ps k = Some p \<and> \<not> Dead p \<and> X p = x \<and> Y p = y) \<longrightarrow>
                (\<exists>k p. ps k = Some p \<and> \<not> Dead p \<and> X p = x \<and> Y p = y \<and> ?cell x y = Character p))
           \<and> (\<not> (\<exists>k p. ps k = Some p \<and> \<not> Dead p \<and> X p = x \<and> Y p = y) \<longrightarrow>
                ?cell x y = (if \<exists>k b. Bullets gw k = Some b \<and> bX b = x \<and> bY b = y then ''*'' else '' ''))"
    using glyph_at_player[OF pord] glyph_at_no_player[OF pord bord] by blast
  from a b u c d e n f show ?thesis by blast
qed


lemma volley_bullet_entries:
  "range_entries (Bullets (world volley)) [''bullet_1000'', ''bullet_2000''] =
     [(''bullet_1000'', gallery_bullet),
      (''bullet_2000'', \<lparr>bID = ''bullet_2000'', bX = 80, bY = 5, DirX = 0, DirY = - 1,
                          OwnerID = ''p1'', bCharacter = ''*''\<rparr>)]"
  by (simp add: range_entries_def map_filter_simps volley_def)

theorem Render_frame_text_witness:
  "index_ok (world volley) \<and> 0 \<le> Width (world volley)
   \<and> range_order (Bullets (world volley)) [''bullet_1000'', ''bullet_2000'']
   \<and> range_order (players volley) [''p1'', ''p9'']
   \<and> plain_glyphs (players volley)
   \<and> map_option (\<lambda>(t, g). length (text_lines t))
        (Render (world volley) [''bullet_1000'', ''bullet_2000''] [''p1'', ''p9''] (players volley))
       = Some 42
   \<and> map_option (\<lambda>(t, g). hd (text_lines t))
        (Render (world volley) [''bullet_1000'', ''bullet_2000''] [''p1'', ''p9''] (players volley))
       = Some (''+'' @ replicate 150 CHR ''-'' @ ''+'')
   \<and> map_option (\<lambda>(t, g). take 3 (drop 74 (text_lines t ! 21)))
        (Render (world volley) [''bullet_1000'', ''bullet_2000''] [''p1'', ''p9''] (players volley))
       = Some '' AS''
   \<and> glyph_at (range_entries (Bullets (world volley)) [''bullet_1000'', ''bullet_2000''])
               (range_entries (players volley) [''p1'', ''p9'']) 74 20 = ''A''
   \<and> glyph_at (range_entries (Bullets (world volley)) [''bullet_1000'', ''bullet_2000''])
               (range_entries (players volley) [''p1'', ''p9'']) 75 20 = ''S''
   \<and> glyph_at (range_entries (Bullets (world volley)) [''bullet_1000'', ''bullet_2000''])
               (range_entries (players volley) [''p1'', ''p9'']) 80 5 = ''*''
   \<and> glyph_at (range_entries (Bullets (world volley)) [''bullet_1000'', ''bullet_2000''])
               (range_entries (players volley) [''p1'', ''p9'']) 0 0 = '' ''"
proof -
  let ?bo = "[''bullet_1000'', ''bullet_2000'']" and ?po = "[''p1'', ''p9'']"
  let ?cell = "glyph_at (range_entries (Bullets (world volley)) ?bo) (range_entries (players volley) ?po)"
  have w: "world volley = NewGameWorld\<lparr>Bullets :=
      [''bullet_1000'' \<mapsto> gallery_bullet,
       ''bullet_2000'' \<mapsto> \<lparr>bID = ''bullet_2000'', bX = 80, bY = 5, DirX = 0, DirY = - 1,
                              OwnerID = ''p1'', bCharacter = ''*''\<rparr>]\<rparr>"
    by (simp add: volley_def)
  have ps: "players volley = players gallery" by (simp add: volley_def)
  have ok: "index_ok (world volley)" unfolding w by (rule index_ok_NewGameWorld)
  have sz: "Width (world volley) = 150" "Height (world volley) = 40"
    unfolding w by (rule NewGameWorld_size)+
  have wd: "0 \<le> Width (world volley)" by (simp add: sz)
  have bo: "range_order (Bullets (world volley)) ?bo"
    by (auto simp add: range_order_def volley_def)
  have po: "range_order (players volley) ?po" unfolding ps by (rule gallery_order)
  have plain: "plain_glyphs (players volley)"
    unfolding ps plain_glyphs_def by (auto dest!: gallery_players_cases simp add: mkPlayer_def)
  from Render_frame_text[OF ok wd bo po plain, unfolded sz] obtain g tx where
    R: "Render (world volley) ?bo ?po (players volley) = Some (tx, (world volley)\<lparr>Grid := g\<rparr>)"
    and l: "length (text_lines tx) = nat 40 + 2"
    and h: "hd (text_lines tx) = ''+'' @ replicate (nat 150) CHR ''-'' @ ''+''"
    and r: "\<forall>y. 0 \<le> y \<and> y < 40 \<longrightarrow>
           text_lines tx ! (nat y + 1) = ''|'' @ concat (map (\<lambda>x. ?cell x y) [0..150 - 1]) @ ''|''"
    by blast
  have c1: "?cell 74 20 = ''A''"
    by (simp add: glyph_at_def ps gallery_player_entries volley_bullet_entries mkPlayer_def)
  have c2: "?cell 75 20 = ''S''"
    by (simp add: glyph_at_def ps gallery_player_entries volley_bullet_entries mkPlayer_def)
  have c3: "?cell 80 5 = ''*''"
    by (simp add: glyph_at_def ps gallery_player_entries volley_bullet_entries mkPlayer_def
          gallery_bullet_def)
  have c4: "?cell 0 0 = '' ''"
    by (simp add: glyph_at_def ps gallery_player_entries volley_bullet_entries mkPlayer_def
          gallery_bullet_def)
  have c0: "?cell 73 20 = '' ''"
    by (simp add: glyph_at_def ps gallery_player_entries volley_bullet_entries mkPlayer_def
          gallery_bullet_def)
  have a1: "map_option (\<lambda>(t, g). length (text_lines t)) (Render (world volley) ?bo ?po (players volley))
       = Some 42"
    unfolding R using l by simp
  have a2: "map_option (\<lambda>(t, g). hd (text_lines t)) (Render (world volley) ?bo ?po (players volley))
       = Some (''+'' @ replicate 150 CHR ''-'' @ ''+'')"
    unfolding R using h by simp
  have "text_lines tx ! (nat 20 + 1) = ''|'' @ concat (map (\<lambda>x. ?cell x 20) [0..150 - 1]) @ ''|''"
    by (rule r[rule_format]) simp
  then have row: "text_lines tx ! 21 = ''|'' @ concat (map (\<lambda>x. ?cell x 20) [0..150 - 1]) @ ''|''"
    by simp
  have up: "[0..150 - 1] = [0..72] @ [73, 74, 75] @ [76..149::int]"
    by (simp add: upto_split2[of 0 72 149] upto_rec1[of 73] upto_rec1[of 74] upto_rec1[of 75])
  have l73: "length (concat (map (\<lambda>x. ?cell x 20) [0..72])) = 73"
  proof -
    have "concat (map (\<lambda>x. ?cell x 20) [0..72]) = map (\<lambda>x. hd (?cell x 20)) [0..72]"
      by (rule concat_single_glyphs)
         (rule length_glyph_at, unfold ps, rule wf_single_glyphs, rule wf_gallery)
    then show ?thesis by simp
  qed
  have "take 3 (drop 74 (text_lines tx ! 21)) = '' AS''"
    unfolding row up using l73 by (simp add: c0 c1 c2)
  then have a3: "map_option (\<lambda>(t, g). take 3 (drop 74 (text_lines t ! 21)))
        (Render (world volley) ?bo ?po (players volley)) = Some '' AS''"
    unfolding R by simp
  from ok wd bo po plain a1 a2 a3 c1 c2 c3 c4 show ?thesis by (intro conjI)
qed

end
